theory Spec2Isabelle
  imports Main "HOL-Library.Word"
begin

unbundle bit_operations_syntax

section \<open>Bytes, integers and failures\<close>

text \<open>
  The script \<^verbatim>\<open>scripts/inject-pe-section.py\<close> works on one \<^verbatim>\<open>bytearray\<close>. A byte is an
  8-bit word and the buffer a list of bytes. Every offset, length and field value of the
  script is a non-negative Python integer (a sum or product of lengths and of unsigned
  fields), so these are natural numbers; the one place where a negative intermediate
  value occurs, the mask of \<^verbatim>\<open>align_up\<close>, is computed on \<open>int\<close>.

  Every way the script can abort is a value of \<open>error\<close>:
  the \<^verbatim>\<open>assert\<close> on the PE signature (\<open>FormatError\<close>), the one on the optional header
  magic (\<open>UnsupportedFormat\<close>), the \<^verbatim>\<open>ValueError\<close> for an existing \<^verbatim>\<open>.bun\<close> section
  (\<open>DuplicateSection\<close>), the \<^verbatim>\<open>assert\<close> on the section count (\<open>SectionLimitExceeded\<close>),
  the one on the header space (\<open>InsufficientHeaderSpace\<close>), and \<^verbatim>\<open>struct.error\<close>, which
  \<^verbatim>\<open>unpack_from\<close> and \<^verbatim>\<open>pack_into\<close> raise on a buffer that is too short or a value that
  does not fit the format (\<open>StructError\<close>).
\<close>

type_synonym byte = "8 word"
type_synonym bytes = "byte list"

datatype error =
    FormatError
  | UnsupportedFormat
  | DuplicateSection
  | SectionLimitExceeded
  | InsufficientHeaderSpace
  | StructError

text \<open>Sequencing of two steps, the first of which may raise.\<close>

definition and_then :: "error + 'a \<Rightarrow> ('a \<Rightarrow> error + 'b) \<Rightarrow> error + 'b" where
  "and_then r f = (case r of Inl e \<Rightarrow> Inl e | Inr v \<Rightarrow> f v)"

text \<open>
  \<^verbatim>\<open>def align_up(value, alignment): return (value + alignment - 1) & ~(alignment - 1)\<close>
  on Python's unbounded integers: \<open>AND\<close> and \<open>NOT\<close> on \<open>int\<close> are the same two's
  complement operations.
\<close>

definition align_up :: "nat \<Rightarrow> nat \<Rightarrow> nat" where
  "align_up val alignment =
     nat ((int val + int alignment - 1) AND NOT (int alignment - 1))"

subsection \<open>Slices\<close>

text \<open>
  \<^verbatim>\<open>data[a:b]\<close> and \<^verbatim>\<open>data[a:b] = new\<close> for non-negative bounds. Python clamps both bounds
  to the length and treats \<^verbatim>\<open>b < a\<close> as the empty slice at \<^verbatim>\<open>a\<close>; an assignment replaces
  the slice by \<^verbatim>\<open>new\<close> whatever its length, so it can grow the buffer.
\<close>

definition slice :: "bytes \<Rightarrow> nat \<Rightarrow> nat \<Rightarrow> bytes" where
  "slice data a b = take (b - a) (drop a data)"

definition slice_assign :: "bytes \<Rightarrow> nat \<Rightarrow> nat \<Rightarrow> bytes \<Rightarrow> bytes" where
  "slice_assign data a b new = take a data @ new @ drop (max a b) data"

subsection \<open>struct.unpack_from and struct.pack_into, little-endian unsigned\<close>

fun le_decode :: "bytes \<Rightarrow> nat" where
  "le_decode [] = 0"
| "le_decode (b # bs) = unat b + 256 * le_decode bs"

fun le_encode :: "nat \<Rightarrow> nat \<Rightarrow> bytes" where
  "le_encode 0 v = []"
| "le_encode (Suc n) v = word_of_nat (v mod 256) # le_encode n (v div 256)"

text \<open>
  \<^verbatim>\<open>struct.unpack_from(fmt, data, offset)\<close> for a format of \<open>n\<close> bytes raises
  \<^verbatim>\<open>struct.error\<close> unless \<open>offset + n \<le> len(data)\<close>.
\<close>

definition unpack_from :: "nat \<Rightarrow> bytes \<Rightarrow> nat \<Rightarrow> error + nat" where
  "unpack_from n data offset =
     (if offset + n \<le> length data then Inr (le_decode (take n (drop offset data)))
      else Inl StructError)"

text \<open>
  \<^verbatim>\<open>struct.pack_into(fmt, data, offset, val)\<close> raises \<^verbatim>\<open>struct.error\<close> when the value
  does not fit \<open>n\<close> unsigned bytes or the buffer has no \<open>n\<close> bytes at \<open>offset\<close>;
  otherwise it overwrites exactly these \<open>n\<close> bytes.
\<close>

definition pack_into :: "nat \<Rightarrow> bytes \<Rightarrow> nat \<Rightarrow> nat \<Rightarrow> error + bytes" where
  "pack_into n data offset val =
     (if val < 2 ^ (8 * n) \<and> offset + n \<le> length data
      then Inr (take offset data @ le_encode n val @ drop (offset + n) data)
      else Inl StructError)"

definition read_u16 :: "bytes \<Rightarrow> nat \<Rightarrow> error + nat" where
  "read_u16 data offset = unpack_from 2 data offset"

definition read_u32 :: "bytes \<Rightarrow> nat \<Rightarrow> error + nat" where
  "read_u32 data offset = unpack_from 4 data offset"

definition read_u64 :: "bytes \<Rightarrow> nat \<Rightarrow> error + nat" where
  "read_u64 data offset = unpack_from 8 data offset"

definition write_u16 :: "bytes \<Rightarrow> nat \<Rightarrow> nat \<Rightarrow> error + bytes" where
  "write_u16 data offset val = pack_into 2 data offset val"

definition write_u32 :: "bytes \<Rightarrow> nat \<Rightarrow> nat \<Rightarrow> error + bytes" where
  "write_u32 data offset val = pack_into 4 data offset val"

definition write_u64 :: "bytes \<Rightarrow> nat \<Rightarrow> nat \<Rightarrow> error + bytes" where
  "write_u64 data offset val = pack_into 8 data offset val"

section \<open>Structure Reader: lines 24 to 68 of add_bun_section\<close>

text \<open>The dictionary the script appends for each section header it reads.\<close>

record section_entry =
  name :: bytes
  virtual_size :: nat
  virtual_addr :: nat
  raw_size :: nat
  raw_ptr :: nat
  chars :: nat
  off :: nat

text \<open>The local variables of the script after its parsing phase.\<close>

record pe_view =
  e_lfanew :: nat
  coff_offset :: nat
  machine :: nat
  num_sections :: nat
  size_of_optional :: nat
  opt_offset :: nat
  file_alignment :: nat
  section_alignment :: nat
  size_of_image :: nat
  size_of_headers :: nat
  checksum_offset :: nat
  security_dd_offset :: nat
  section_headers_offset :: nat
  sections :: "section_entry list"

definition pe_sig :: bytes where
  "pe_sig = [0x50, 0x45, 0, 0]"

definition bun_name :: bytes where
  "bun_name = [0x2E, 0x62, 0x75, 0x6E, 0, 0, 0, 0]"

definition SECTION_HEADER_SIZE :: nat where
  "SECTION_HEADER_SIZE = 40"

text \<open>One round of the loop over the section table, for the header at offset \<open>pos\<close>.\<close>

definition read_section :: "bytes \<Rightarrow> nat \<Rightarrow> error + section_entry" where
  "read_section data pos =
     and_then (read_u32 data (pos + 8)) (\<lambda>vs.
     and_then (read_u32 data (pos + 12)) (\<lambda>va.
     and_then (read_u32 data (pos + 16)) (\<lambda>rs.
     and_then (read_u32 data (pos + 20)) (\<lambda>rp.
     and_then (read_u32 data (pos + 36)) (\<lambda>ch.
       Inr \<lparr>name = slice data pos (pos + 8), virtual_size = vs, virtual_addr = va,
            raw_size = rs, raw_ptr = rp, chars = ch, off = pos\<rparr>)))))"

text \<open>
  \<^verbatim>\<open>for i in range(num_sections)\<close>: \<open>parse_sections data pos k\<close> runs the \<open>k\<close> rounds
  that remain when the next header is at \<open>pos\<close>. A round appends the section and then
  raises if its name is \<^verbatim>\<open>.bun\<close>.
\<close>

fun parse_sections :: "bytes \<Rightarrow> nat \<Rightarrow> nat \<Rightarrow> error + section_entry list" where
  "parse_sections data pos 0 = Inr []"
| "parse_sections data pos (Suc k) =
     and_then (read_section data pos) (\<lambda>s.
       if name s = bun_name then Inl DuplicateSection
       else and_then (parse_sections data (pos + SECTION_HEADER_SIZE) k) (\<lambda>ss. Inr (s # ss)))"

definition parse_image :: "bytes \<Rightarrow> error + pe_view" where
  "parse_image data =
     and_then (read_u32 data 0x3C) (\<lambda>e_lfanew.
     if slice data e_lfanew (e_lfanew + 4) \<noteq> pe_sig then Inl FormatError
     else
       let coff_offset = e_lfanew + 4 in
       and_then (read_u16 data coff_offset) (\<lambda>machine.
       and_then (read_u16 data (coff_offset + 2)) (\<lambda>num_sections.
       and_then (read_u16 data (coff_offset + 16)) (\<lambda>size_of_optional.
       let opt_offset = coff_offset + 20 in
       and_then (read_u16 data opt_offset) (\<lambda>magic.
       if magic \<noteq> 0x20B then Inl UnsupportedFormat
       else
         and_then (read_u32 data (opt_offset + 36)) (\<lambda>file_alignment.
         and_then (read_u32 data (opt_offset + 32)) (\<lambda>section_alignment.
         and_then (read_u32 data (opt_offset + 56)) (\<lambda>size_of_image.
         and_then (read_u32 data (opt_offset + 60)) (\<lambda>size_of_headers.
         let checksum_offset = opt_offset + 64;
             security_dd_offset = opt_offset + 112 + 4 * 8;
             section_headers_offset = opt_offset + size_of_optional
         in
         and_then (parse_sections data section_headers_offset num_sections) (\<lambda>sections.
           Inr \<lparr>e_lfanew = e_lfanew, coff_offset = coff_offset, machine = machine,
                num_sections = num_sections, size_of_optional = size_of_optional,
                opt_offset = opt_offset, file_alignment = file_alignment,
                section_alignment = section_alignment, size_of_image = size_of_image,
                size_of_headers = size_of_headers, checksum_offset = checksum_offset,
                security_dd_offset = security_dd_offset,
                section_headers_offset = section_headers_offset,
                sections = sections\<rparr>))))))))))"

section \<open>Layout Planner: lines 72 to 90\<close>

text \<open>\<^verbatim>\<open>min(..., default=d)\<close> and \<^verbatim>\<open>max(..., default=d)\<close> over a generator.\<close>

definition min_default :: "nat list \<Rightarrow> nat \<Rightarrow> nat" where
  "min_default xs d = (case xs of [] \<Rightarrow> d | x # r \<Rightarrow> fold min r x)"

definition max_default :: "nat list \<Rightarrow> nat \<Rightarrow> nat" where
  "max_default xs d = (case xs of [] \<Rightarrow> d | x # r \<Rightarrow> fold max r x)"

record layout =
  new_sh_off :: nat
  new_sh_end :: nat
  first_raw :: nat
  new_size_of_headers :: nat
  last_file_end :: nat
  last_va_end :: nat
  payload_len :: nat
  raw_size_new :: nat
  new_va :: nat
  new_raw :: nat

definition layout_planner :: "pe_view \<Rightarrow> nat \<Rightarrow> nat \<Rightarrow> layout" where
  "layout_planner p data_len bundle_len =
     (let new_sh_off = section_headers_offset p + num_sections p * SECTION_HEADER_SIZE;
          new_sh_end = new_sh_off + SECTION_HEADER_SIZE;
          first_raw = min_default (map raw_ptr (filter (\<lambda>s. raw_size s > 0) (sections p))) data_len;
          new_size_of_headers = align_up new_sh_end (file_alignment p);
          last_file_end = max_default (map (\<lambda>s. raw_ptr s + raw_size s) (sections p)) 0;
          last_va_end = max_default
            (map (\<lambda>s. virtual_addr s
                        + align_up (max (virtual_size s) (raw_size s)) (section_alignment p))
                 (sections p)) 0;
          payload_len = bundle_len + 8;
          raw_size_new = align_up payload_len (file_alignment p);
          new_va = align_up last_va_end (section_alignment p);
          new_raw = align_up last_file_end (file_alignment p)
      in \<lparr>new_sh_off = new_sh_off, new_sh_end = new_sh_end, first_raw = first_raw,
          new_size_of_headers = new_size_of_headers, last_file_end = last_file_end,
          last_va_end = last_va_end, payload_len = payload_len,
          raw_size_new = raw_size_new, new_va = new_va, new_raw = new_raw\<rparr>)"

section \<open>Checksum Engine: recompute_checksum\<close>

text \<open>
  \<^verbatim>\<open>for i in range(0, len(data) - 1, 2)\<close>: the round at index \<open>i\<close> runs while
  \<open>i + 1 < len(data)\<close>, where \<^verbatim>\<open>unpack_from('<H', data, i)\<close> cannot raise.
\<close>

function checksum_loop :: "bytes \<Rightarrow> nat \<Rightarrow> nat \<Rightarrow> nat" where
  "checksum_loop data i checksum =
     (if i + 1 < length data then
        let val = le_decode (take 2 (drop i data));
            checksum = checksum + val;
            checksum = (if checksum > 0xFFFFFFFF
                        then (checksum AND 0xFFFFFFFF) + drop_bit 32 checksum
                        else checksum)
        in checksum_loop data (i + 2) checksum
      else checksum)"
  by pat_completeness auto
termination
  by (relation "measure (\<lambda>(data, i, checksum). length data - i)") auto

declare checksum_loop.simps [simp del]

definition recompute_checksum :: "bytes \<Rightarrow> nat \<Rightarrow> error + bytes" where
  "recompute_checksum data checksum_off =
     and_then (write_u32 data checksum_off 0) (\<lambda>data.
       let checksum = checksum_loop data 0 0;
           checksum = (if length data mod 2 \<noteq> 0 then checksum + unat (last data) else checksum);
           checksum = (checksum AND 0xFFFF) + drop_bit 16 checksum;
           checksum = checksum + drop_bit 16 checksum;
           checksum = checksum AND 0xFFFF;
           checksum = checksum + length data
       in write_u32 data checksum_off checksum)"

section \<open>Buffer Mutator: lines 92 to 131\<close>

definition IMAGE_SCN_CNT_INITIALIZED_DATA :: nat where
  "IMAGE_SCN_CNT_INITIALIZED_DATA = 0x00000040"

definition IMAGE_SCN_MEM_READ :: nat where
  "IMAGE_SCN_MEM_READ = 0x40000000"

text \<open>Lines 103 to 109: the 40 bytes of the new section header.\<close>

definition new_section_header :: "layout \<Rightarrow> error + bytes" where
  "new_section_header l =
     (let sh = replicate SECTION_HEADER_SIZE 0;
          sh = slice_assign sh 0 8 bun_name
      in and_then (pack_into 4 sh 8 (payload_len l)) (\<lambda>sh.
         and_then (pack_into 4 sh 12 (new_va l)) (\<lambda>sh.
         and_then (pack_into 4 sh 16 (raw_size_new l)) (\<lambda>sh.
         and_then (pack_into 4 sh 20 (new_raw l)) (\<lambda>sh.
           pack_into 4 sh 36 (IMAGE_SCN_CNT_INITIALIZED_DATA OR IMAGE_SCN_MEM_READ))))))"

definition buffer_mutator :: "pe_view \<Rightarrow> layout \<Rightarrow> bytes \<Rightarrow> bytes \<Rightarrow> error + bytes" where
  "buffer_mutator p l data bundle_bytes =
     (let new_file_size = new_raw l + raw_size_new l;
          data = (if length data < new_file_size
                  then data @ replicate (new_file_size - length data) 0
                  else slice_assign data (new_raw l) new_file_size (replicate (raw_size_new l) 0))
      in and_then (new_section_header l) (\<lambda>sh.
         let data = slice_assign data (new_sh_off l) (new_sh_off l + SECTION_HEADER_SIZE) sh in
         and_then (write_u64 data (new_raw l) (length bundle_bytes)) (\<lambda>data.
         let data = slice_assign data (new_raw l + 8) (new_raw l + 8 + length bundle_bytes)
                      bundle_bytes in
         and_then (write_u16 data (coff_offset p + 2) (num_sections p + 1)) (\<lambda>data.
         and_then (if size_of_headers p < new_size_of_headers l
                   then write_u32 data (opt_offset p + 60) (new_size_of_headers l)
                   else Inr data) (\<lambda>data.
         let new_size_of_image = align_up (new_va l + payload_len l) (section_alignment p) in
         and_then (write_u32 data (opt_offset p + 56) new_size_of_image) (\<lambda>data.
         let data = slice_assign data (security_dd_offset p) (security_dd_offset p + 8)
                      (replicate 8 0) in
         recompute_checksum data (checksum_offset p)))))))"

section \<open>The whole pipeline\<close>

definition add_bun_section :: "bytes \<Rightarrow> bytes \<Rightarrow> error + bytes" where
  "add_bun_section pe_bytes bundle_bytes =
     and_then (parse_image pe_bytes) (\<lambda>p.
       if \<not> num_sections p < 96 then Inl SectionLimitExceeded
       else
         let l = layout_planner p (length pe_bytes) (length bundle_bytes) in
         if \<not> new_size_of_headers l \<le> first_raw l then Inl InsufficientHeaderSpace
         else buffer_mutator p l pe_bytes bundle_bytes)"

section \<open>Notions of the specification\<close>

text \<open>
  The specification requires file and section alignment to be powers of two. Both are
  32-bit fields, so the exponent is below 32.
\<close>

definition is_pow2 :: "nat \<Rightarrow> bool" where
  "is_pow2 a = (\<exists>k\<in>{..<32}. a = 2 ^ k)"

text \<open>
  ``Rounded up to the next multiple of the alignment'', as arithmetic rather than as
  the bit mask of \<open>align_up\<close>.
\<close>

definition round_up :: "nat \<Rightarrow> nat \<Rightarrow> nat" where
  "round_up x a = ((x + a - 1) div a) * a"

text \<open>
  A well-formed image, as far as the parsed view shows it: the PE header lies behind the
  64-byte DOS header (whose last field is \<open>e_lfanew\<close>), the optional header is long
  enough to hold the security directory entry (which ends at its byte 152), both
  alignments are powers of two, and some section carries raw data, so that ``the first
  existing section's raw data'' of the header-capacity check exists.
\<close>

definition well_formed :: "pe_view \<Rightarrow> bool" where
  "well_formed p \<longleftrightarrow>
     0x40 \<le> e_lfanew p \<and> 152 \<le> size_of_optional p \<and>
     is_pow2 (file_alignment p) \<and> is_pow2 (section_alignment p) \<and>
     (\<exists>s\<in>set (sections p). 0 < raw_size s)"

text \<open>
  The new image stays within what its 32-bit fields can hold: the new size of image
  fits, and so does the checksum, which is at most the file length plus \<open>0xFFFF\<close>.
  Beyond this the script ends in \<^verbatim>\<open>struct.error\<close>.
\<close>

definition fits :: "pe_view \<Rightarrow> layout \<Rightarrow> nat \<Rightarrow> bool" where
  "fits p l data_len \<longleftrightarrow>
     align_up (new_va l + payload_len l) (section_alignment p) < 2 ^ 32 \<and>
     max data_len (new_raw l + raw_size_new l) + 0xFFFF < 2 ^ 32"

section \<open>Vocabulary of the proofs\<close>

text \<open>
  Overwriting the bytes of \<open>data\<close> from \<open>pos\<close> on by \<open>bs\<close>: what \<open>pack_into\<close> and a
  slice assignment of matching length do.
\<close>

definition patch :: "bytes \<Rightarrow> nat \<Rightarrow> bytes \<Rightarrow> bytes" where
  "patch data pos bs = take pos data @ bs @ drop (pos + length bs) data"

text \<open>The value \<open>recompute_checksum\<close> computes from the buffer whose field is zeroed.\<close>

definition checksum_of :: "bytes \<Rightarrow> nat" where
  "checksum_of data =
     (let checksum = checksum_loop data 0 0;
          checksum = (if length data mod 2 \<noteq> 0 then checksum + unat (last data) else checksum);
          checksum = (checksum AND 0xFFFF) + drop_bit 16 checksum;
          checksum = checksum + drop_bit 16 checksum;
          checksum = checksum AND 0xFFFF
      in checksum + length data)"

text \<open>The bytes of the new section header, and the buffer after each phase of the mutator.\<close>

definition sh_bytes :: "layout \<Rightarrow> bytes" where
  "sh_bytes l = bun_name @ le_encode 4 (payload_len l) @ le_encode 4 (new_va l)
     @ le_encode 4 (raw_size_new l) @ le_encode 4 (new_raw l) @ replicate 12 0
     @ le_encode 4 0x40000040"

definition grown :: "layout \<Rightarrow> bytes \<Rightarrow> bytes" where
  "grown l data =
     (if length data < new_raw l + raw_size_new l
      then data @ replicate (new_raw l + raw_size_new l - length data) 0
      else patch data (new_raw l) (replicate (raw_size_new l) 0))"

definition header_patches :: "pe_view \<Rightarrow> layout \<Rightarrow> bytes \<Rightarrow> bytes" where
  "header_patches p l d =
     (let b = patch d (coff_offset p + 2) (le_encode 2 (num_sections p + 1));
          b = (if size_of_headers p < new_size_of_headers l
               then patch b (opt_offset p + 60) (le_encode 4 (new_size_of_headers l)) else b);
          b = patch b (opt_offset p + 56)
                (le_encode 4 (align_up (new_va l + payload_len l) (section_alignment p)))
      in patch b (security_dd_offset p) (replicate 8 0))"

definition patched :: "pe_view \<Rightarrow> layout \<Rightarrow> bytes \<Rightarrow> bytes \<Rightarrow> bytes" where
  "patched p l data payload =
     (let b = patch (grown l data) (new_sh_off l) (sh_bytes l);
          b = patch b (new_raw l) (le_encode 8 (length payload));
          b = patch b (new_raw l + 8) payload;
          b = patch b (coff_offset p + 2) (le_encode 2 (num_sections p + 1));
          b = (if size_of_headers p < new_size_of_headers l
               then patch b (opt_offset p + 60) (le_encode 4 (new_size_of_headers l)) else b);
          b = patch b (opt_offset p + 56)
                (le_encode 4 (align_up (new_va l + payload_len l) (section_alignment p)))
      in patch b (opt_offset p + 144) (replicate 8 0))"

definition mutated :: "pe_view \<Rightarrow> layout \<Rightarrow> bytes \<Rightarrow> bytes \<Rightarrow> bytes" where
  "mutated p l data payload =
     (let b = patched p l data payload
      in patch b (opt_offset p + 64)
           (le_encode 4 (checksum_of (patch b (opt_offset p + 64) (le_encode 4 0)))))"

text \<open>
  The order of the regions the mutator writes, and the bounds under which every
  \<open>pack_into\<close> of a planned value succeeds.
\<close>

definition geom :: "pe_view \<Rightarrow> layout \<Rightarrow> nat \<Rightarrow> bool" where
  "geom p l bundle_len \<longleftrightarrow>
     coff_offset p = e_lfanew p + 4 \<and> opt_offset p = e_lfanew p + 24 \<and>
     checksum_offset p = opt_offset p + 64 \<and> security_dd_offset p = opt_offset p + 144 \<and>
     opt_offset p + 152 \<le> new_sh_off l \<and> new_sh_off l + 40 \<le> new_raw l \<and>
     payload_len l = bundle_len + 8 \<and> payload_len l \<le> raw_size_new l \<and>
     num_sections p < 96 \<and> new_size_of_headers l \<le> new_raw l"

definition value_bounds :: "pe_view \<Rightarrow> layout \<Rightarrow> bool" where
  "value_bounds p l \<longleftrightarrow>
     payload_len l < 2 ^ 32 \<and> new_va l < 2 ^ 32 \<and> raw_size_new l < 2 ^ 32 \<and>
     new_raw l < 2 ^ 32 \<and>
     align_up (new_va l + payload_len l) (section_alignment p) < 2 ^ 32"

section \<open>Synthetic images\<close>

text \<open>
  Images built in memory, for the concrete instances of the theorems: a DOS header
  whose \<open>e_lfanew\<close> is \<open>0x40\<close>, the PE signature, a COFF header for \<open>n\<close> sections with a
  240-byte optional header, a PE32+ optional header with sixteen data directories, the
  section table, and whatever follows it.
\<close>

definition encode_section :: "section_entry \<Rightarrow> bytes" where
  "encode_section s =
     name s @ le_encode 4 (virtual_size s) @ le_encode 4 (virtual_addr s)
     @ le_encode 4 (raw_size s) @ le_encode 4 (raw_ptr s) @ replicate 12 0
     @ le_encode 4 (chars s)"

definition synth_header :: "nat \<Rightarrow> nat \<Rightarrow> nat \<Rightarrow> nat \<Rightarrow> nat \<Rightarrow> nat \<Rightarrow> nat \<Rightarrow> bytes" where
  "synth_header fa sa soi soh sec_addr sec_size n =
     [0x4D, 0x5A] @ replicate 58 0 @ le_encode 4 0x40
     @ pe_sig @ le_encode 2 0x8664 @ le_encode 2 n @ replicate 12 0
     @ le_encode 2 240 @ le_encode 2 0x22
     @ le_encode 2 0x20B @ replicate 30 0 @ le_encode 4 sa @ le_encode 4 fa
     @ replicate 16 0 @ le_encode 4 soi @ le_encode 4 soh @ replicate 44 0
     @ le_encode 4 16 @ replicate 32 0 @ le_encode 4 sec_addr @ le_encode 4 sec_size
     @ replicate 88 0"

definition synth_image ::
  "nat \<Rightarrow> nat \<Rightarrow> nat \<Rightarrow> nat \<Rightarrow> nat \<Rightarrow> nat \<Rightarrow> section_entry list \<Rightarrow> bytes \<Rightarrow> bytes" where
  "synth_image fa sa soi soh sec_addr sec_size secs body =
     synth_header fa sa soi soh sec_addr sec_size (length secs)
     @ concat (map encode_section secs) @ body"

text \<open>The sections as the parser returns them: each with the offset of its header.\<close>

fun relocate :: "nat \<Rightarrow> section_entry list \<Rightarrow> section_entry list" where
  "relocate pos [] = []"
| "relocate pos (s # ss) = s\<lparr>off := pos\<rparr> # relocate (pos + 40) ss"

definition encodable :: "section_entry \<Rightarrow> bool" where
  "encodable s \<longleftrightarrow>
     length (name s) = 8 \<and> name s \<noteq> bun_name \<and> virtual_size s < 2 ^ 32 \<and>
     virtual_addr s < 2 ^ 32 \<and> raw_size s < 2 ^ 32 \<and> raw_ptr s < 2 ^ 32 \<and> chars s < 2 ^ 32"

text \<open>
  A signed image: one section \<^verbatim>\<open>.text\<close> of 512 raw bytes at file offset 512, file
  alignment 512, section alignment 4096, and a 16-byte certificate behind the section,
  which the security directory entry points to.
\<close>

definition text_section :: section_entry where
  "text_section = \<lparr>name = [0x2E, 0x74, 0x65, 0x78, 0x74, 0, 0, 0], virtual_size = 0x10,
     virtual_addr = 0x1000, raw_size = 0x200, raw_ptr = 0x200, chars = 0x60000020, off = 0\<rparr>"

definition signed_image :: bytes where
  "signed_image =
     synth_image 0x200 0x1000 0x2000 0x200 0x400 0x10 [text_section]
       (replicate 144 0 @ [0xC3] @ replicate 511 0 @ replicate 16 0xAA)"

definition signed_view :: pe_view where
  "signed_view = \<lparr>e_lfanew = 64, coff_offset = 68, machine = 0x8664,
                num_sections = 1, size_of_optional = 240, opt_offset = 88,
                file_alignment = 0x200, section_alignment = 0x1000, size_of_image = 0x2000,
                size_of_headers = 0x200, checksum_offset = 152, security_dd_offset = 232,
                section_headers_offset = 328, sections = [text_section\<lparr>off := 328\<rparr>]\<rparr>"


definition output_u16 :: "bytes \<Rightarrow> bytes \<Rightarrow> nat \<Rightarrow> error + nat" where
  "output_u16 data payload pos = and_then (add_bun_section data payload) (\<lambda>out. read_u16 out pos)"

definition output_u32 :: "bytes \<Rightarrow> bytes \<Rightarrow> nat \<Rightarrow> error + nat" where
  "output_u32 data payload pos = and_then (add_bun_section data payload) (\<lambda>out. read_u32 out pos)"

definition oversized_image :: bytes where
  "oversized_image =
     synth_image 0x200 0x1000 0x10000 0x200 0 0 [text_section]
       (replicate 144 0 @ [0xC3] @ replicate 511 0)"

definition oversized_view :: pe_view where
  "oversized_view = signed_view\<lparr>size_of_image := 0x10000\<rparr>"

text \<open>
  An image with \<open>n\<close> sections \<^verbatim>\<open>.s00\<close>, \<^verbatim>\<open>.s01\<close>, ... of 512 raw bytes each. Its headers
  take 4608 bytes, which leaves room for a table of more than 96 section headers.
\<close>

definition numbered_section :: "nat \<Rightarrow> section_entry" where
  "numbered_section i =
     \<lparr>name = [0x2E, 0x73, word_of_nat (48 + i div 10), word_of_nat (48 + i mod 10), 0, 0, 0, 0],
      virtual_size = 0x10, virtual_addr = 0x2000 + i * 0x1000, raw_size = 0x200,
      raw_ptr = 0x1200 + i * 0x200, chars = 0x60000020, off = 0\<rparr>"

definition many_sections_image :: "nat \<Rightarrow> bytes" where
  "many_sections_image n =
     synth_image 0x200 0x1000 (0x2000 + n * 0x1000) 0x1200 0 0 (map numbered_section [0..<n])
       (replicate (4280 - 40 * n) 0 @ replicate (n * 512) 0)"

definition many_sections_view :: "nat \<Rightarrow> pe_view" where
  "many_sections_view n =
     \<lparr>e_lfanew = 64, coff_offset = 68, machine = 0x8664,
      num_sections = n, size_of_optional = 240, opt_offset = 88,
      file_alignment = 0x200, section_alignment = 0x1000,
      size_of_image = 0x2000 + n * 0x1000,
      size_of_headers = 0x1200, checksum_offset = 152, security_dd_offset = 232,
      section_headers_offset = 328, sections = relocate 328 (map numbered_section [0..<n])\<rparr>"

text \<open>
  The checksum algorithm in the words of the specification (section 4.4): zero the
  field; sum the buffer as little-endian 16-bit words, folding any carry beyond 32 bits
  back in with \<open>sum = (sum & 0xFFFFFFFF) + (sum >> 32)\<close>; add a trailing byte of an odd
  length as its own term; fold to 16 bits with \<open>sum = (sum & 0xFFFF) + (sum >> 16)\<close>,
  twice; add the length of the buffer.
\<close>

fun le_words :: "bytes \<Rightarrow> nat list" where
  "le_words (a # b # rest) = (unat a + 256 * unat b) # le_words rest"
| "le_words rest = []"

definition fold_carry32 :: "nat \<Rightarrow> nat" where
  "fold_carry32 s = (s AND 0xFFFFFFFF) + drop_bit 32 s"

definition fold16 :: "nat \<Rightarrow> nat" where
  "fold16 s = (s AND 0xFFFF) + drop_bit 16 s"

definition zero_field :: "bytes \<Rightarrow> nat \<Rightarrow> bytes" where
  "zero_field data pos = take pos data @ replicate 4 0 @ drop (pos + 4) data"

definition spec_checksum :: "bytes \<Rightarrow> nat \<Rightarrow> nat" where
  "spec_checksum data pos =
     (let zeroed = zero_field data pos;
          s = foldl (\<lambda>s w. fold_carry32 (s + w)) 0 (le_words zeroed);
          s = (if odd (length zeroed) then s + unat (last zeroed) else s);
          s = fold16 (fold16 s)
      in s + length zeroed)"

text \<open>
  An image without room for another section header: four sections, whose table ends at
  byte 488 of the 512 bytes of headers.
\<close>

definition full_image :: bytes where
  "full_image =
     synth_image 0x200 0x1000 0x5000 0x200 0 0
       (map (\<lambda>i. (numbered_section i)\<lparr>raw_ptr := 0x200 + i * 0x200,
                                          virtual_addr := 0x1000 + i * 0x1000\<rparr>) [0..<4])
       (replicate 24 0 @ replicate 2048 0)"

definition full_view :: pe_view where
  "full_view =
     \<lparr>e_lfanew = 64, coff_offset = 68, machine = 0x8664,
      num_sections = 4, size_of_optional = 240, opt_offset = 88,
      file_alignment = 0x200, section_alignment = 0x1000, size_of_image = 0x5000,
      size_of_headers = 0x200, checksum_offset = 152, security_dd_offset = 232,
      section_headers_offset = 328,
      sections = relocate 328
        (map (\<lambda>i. (numbered_section i)\<lparr>raw_ptr := 0x200 + i * 0x200,
                                           virtual_addr := 0x1000 + i * 0x1000\<rparr>) [0..<4])\<rparr>"

section \<open>Lemmas\<close>

subsection \<open>Encoding, decoding and alignment\<close>

lemma length_le_encode [simp]: "length (le_encode n v) = n"
  by (induction n arbitrary: v) auto

lemma le_decode_encode: "v < 2 ^ (8 * n) \<Longrightarrow> le_decode (le_encode n v) = v"
proof (induction n arbitrary: v)
  case 0
  then show ?case by simp
next
  case (Suc n)
  have "v div 256 < 2 ^ (8 * n)"
    using Suc.prems by (simp add: less_mult_imp_div_less power_add mult.commute)
  then have "le_decode (le_encode n (v div 256)) = v div 256"
    by (rule Suc.IH)
  moreover have "unat (word_of_nat (v mod 256) :: byte) = v mod 256"
    by (simp add: unat_of_nat)
  ultimately show ?case by simp
qed

lemma le_decode_bound: "le_decode bs < 2 ^ (8 * length bs)"
proof (induction bs)
  case Nil
  then show ?case by simp
next
  case (Cons b bs)
  have "unat b < 256" using unsigned_less [of b] by simp
  moreover have "le_decode bs + 1 \<le> 2 ^ (8 * length bs)" using Cons by simp
  then have "256 * (le_decode bs + 1) \<le> 256 * 2 ^ (8 * length bs)" by simp
  ultimately show ?case by (simp add: power_add)
qed

lemma and_not_pow2_int:
  "(x::int) AND NOT (2 ^ k - 1) = (x div 2 ^ k) * 2 ^ k"
proof -
  have "x AND NOT (mask k) = push_bit k (drop_bit k x)"
    by (rule bit_eqI) (auto simp add: bit_simps)
  then show ?thesis
    by (simp add: mask_eq_exp_minus_1 push_bit_eq_mult drop_bit_eq_div)
qed

lemma align_up_pow2: "align_up v (2 ^ k) = ((v + 2 ^ k - 1) div 2 ^ k) * 2 ^ k"
proof -
  have one: "1 \<le> v + 2 ^ k"
    by (simp add: Suc_leI trans_less_add2)
  have "int v + int (2 ^ k) - 1 = int (v + 2 ^ k - 1)"
    using one by (simp add: of_nat_diff)
  moreover have "int (2 ^ k) - 1 = 2 ^ k - 1"
    by simp
  ultimately have "(int v + int (2 ^ k) - 1) AND NOT (int (2 ^ k) - 1)
        = (int (v + 2 ^ k - 1) div 2 ^ k) * 2 ^ k"
    using and_not_pow2_int [of "int (v + 2 ^ k - 1)" k] by simp
  also have "\<dots> = int (((v + 2 ^ k - 1) div 2 ^ k) * 2 ^ k)"
    by (simp add: zdiv_int)
  finally have "nat ((int v + int (2 ^ k) - 1) AND NOT (int (2 ^ k) - 1))
        = ((v + 2 ^ k - 1) div 2 ^ k) * 2 ^ k"
    by (simp only: nat_int)
  then show ?thesis
    by (simp only: align_up_def)
qed

lemma align_up_ge: "v \<le> align_up v (2 ^ k)"
proof -
  let ?a = "(2::nat) ^ k"
  have "v + ?a - 1 = (v + ?a - 1) div ?a * ?a + (v + ?a - 1) mod ?a"
    by (rule div_mult_mod_eq [symmetric])
  moreover have "(v + ?a - 1) mod ?a < ?a" by simp
  ultimately have "v + ?a - 1 < (v + ?a - 1) div ?a * ?a + ?a" by linarith
  then show ?thesis by (simp add: align_up_pow2)
qed

lemma align_up_lt: "align_up v (2 ^ k) < v + 2 ^ k"
proof -
  let ?a = "(2::nat) ^ k"
  have "(v + ?a - 1) div ?a * ?a \<le> v + ?a - 1" by simp
  moreover have "0 < ?a" by simp
  ultimately show ?thesis unfolding align_up_pow2 by linarith
qed

lemma align_up_dvd: "2 ^ k dvd align_up v (2 ^ k)"
  by (simp add: align_up_pow2)

lemma align_up_zero_alignment: "align_up v 0 = 0"
  by (simp add: align_up_def)

subsection \<open>Patches and slices\<close>

lemma length_patch [simp]:
  "pos + length bs \<le> length data \<Longrightarrow> length (patch data pos bs) = length data"
  by (simp add: patch_def)

lemma nth_patch:
  assumes "pos + length bs \<le> length data" and "i < length data"
  shows "patch data pos bs ! i
         = (if pos \<le> i \<and> i < pos + length bs then bs ! (i - pos) else data ! i)"
  using assms by (auto simp add: patch_def nth_append)

lemma slice_nth_eq:
  assumes "b \<le> length xs" and "b \<le> length ys"
    and "\<And>i. a \<le> i \<Longrightarrow> i < b \<Longrightarrow> xs ! i = ys ! i"
  shows "slice xs a b = slice ys a b"
  using assms by (auto simp add: slice_def intro!: nth_equalityI)

lemma slice_patch_before:
  assumes "pos + length bs \<le> length data" and "b \<le> pos"
  shows "slice (patch data pos bs) a b = slice data a b"
  using assms by (intro slice_nth_eq) (simp_all add: nth_patch)

lemma slice_patch_after:
  assumes "pos + length bs \<le> length data" and "pos + length bs \<le> a"
  shows "slice (patch data pos bs) a b = slice data a b"
proof -
  have "drop a (take pos data @ bs @ drop (pos + length bs) data)
        = drop (a - (pos + length bs)) (drop (pos + length bs) data)"
    using assms by simp
  also have "\<dots> = drop a data"
    using assms by simp
  finally show ?thesis
    by (simp add: patch_def slice_def)
qed

lemma slice_patch_same:
  assumes "pos + length bs \<le> length data"
  shows "slice (patch data pos bs) pos (pos + length bs) = bs"
  using assms by (simp add: patch_def slice_def)

lemma patch_patch_same:
  assumes "length cs = length bs" and "pos + length bs \<le> length data"
  shows "patch (patch data pos bs) pos cs = patch data pos cs"
  using assms by (simp add: patch_def)

lemma pack_into_patch:
  assumes "val < 2 ^ (8 * n)" and "pos + n \<le> length data"
  shows "pack_into n data pos val = Inr (patch data pos (le_encode n val))"
  using assms by (simp add: pack_into_def patch_def)

lemma slice_assign_patch:
  "slice_assign data a (a + length new) new = patch data a new"
  by (simp add: slice_assign_def patch_def)

lemma unpack_from_slice:
  "unpack_from n data pos
   = (if pos + n \<le> length data then Inr (le_decode (slice data pos (pos + n))) else Inl StructError)"
  by (simp add: unpack_from_def slice_def)

lemma slice_append_left:
  "b \<le> length xs \<Longrightarrow> slice (xs @ ys) a b = slice xs a b"
  by (simp add: slice_def)

subsection \<open>The parser\<close>

lemma and_then_Inr_iff:
  "and_then r f = Inr y \<longleftrightarrow> (\<exists>v. r = Inr v \<and> f v = Inr y)"
  by (cases r) (simp_all add: and_then_def)

lemma and_then_Inr [simp]: "and_then (Inr v) f = f v"
  by (simp add: and_then_def)

lemma and_then_Inl [simp]: "and_then (Inl e) f = Inl e"
  by (simp add: and_then_def)

lemma unpack_from_Inr_iff:
  "unpack_from n data pos = Inr v
   \<longleftrightarrow> pos + n \<le> length data \<and> v = le_decode (slice data pos (pos + n))"
  by (auto simp add: unpack_from_slice)

lemmas read_defs = read_u16_def read_u32_def read_u64_def

lemma read_section_Inr_iff:
  "read_section data pos = Inr s \<longleftrightarrow>
     pos + 40 \<le> length data \<and>
     s = \<lparr>name = slice data pos (pos + 8),
          virtual_size = le_decode (slice data (pos + 8) (pos + 12)),
          virtual_addr = le_decode (slice data (pos + 12) (pos + 16)),
          raw_size = le_decode (slice data (pos + 16) (pos + 20)),
          raw_ptr = le_decode (slice data (pos + 20) (pos + 24)),
          chars = le_decode (slice data (pos + 36) (pos + 40)),
          off = pos\<rparr>"
  by (auto simp add: read_section_def and_then_Inr_iff read_defs unpack_from_Inr_iff
      add.assoc)

lemma parse_sections_length:
  "parse_sections data pos k = Inr ss \<Longrightarrow> length ss = k"
  by (induction k arbitrary: pos ss)
     (auto simp add: and_then_Inr_iff split: if_splits)

lemma parse_sections_in_range:
  "parse_sections data pos k = Inr ss \<Longrightarrow> 0 < k \<Longrightarrow> pos + 40 * k \<le> length data"
proof (induction k arbitrary: pos ss)
  case 0
  then show ?case by simp
next
  case (Suc k)
  from Suc.prems(1) obtain s ss' where s: "read_section data pos = Inr s"
    and rest: "parse_sections data (pos + 40) k = Inr ss'"
    by (auto simp add: and_then_Inr_iff SECTION_HEADER_SIZE_def split: if_splits)
  from s have "pos + 40 \<le> length data"
    by (simp add: read_section_Inr_iff)
  moreover have "0 < k \<Longrightarrow> pos + 40 + 40 * k \<le> length data"
    using Suc.IH [OF rest] by simp
  ultimately show ?case by (cases k) auto
qed

lemma parse_sections_no_bun:
  "parse_sections data pos k = Inr ss \<Longrightarrow> s \<in> set ss \<Longrightarrow> name s \<noteq> bun_name"
  by (induction k arbitrary: pos ss)
     (auto simp add: and_then_Inr_iff split: if_splits)

lemma le_decode_slice_bound:
  "le_decode (slice data a (a + n)) < 2 ^ (8 * n)"
proof -
  have "length (slice data a (a + n)) \<le> n" by (simp add: slice_def)
  then have "(2::nat) ^ (8 * length (slice data a (a + n))) \<le> 2 ^ (8 * n)"
    by (intro power_increasing) simp_all
  with le_decode_bound [of "slice data a (a + n)"] show ?thesis by linarith
qed

lemma read_section_cong:
  assumes "slice data' pos (pos + 40) = slice data pos (pos + 40)"
    and "pos + 40 \<le> length data" and "pos + 40 \<le> length data'"
  shows "read_section data' pos = read_section data pos"
proof -
  have sub: "slice d (pos + a) (pos + b) = slice (slice d pos (pos + 40)) a b"
    if "b \<le> 40" for d :: bytes and a b
    using that by (simp add: slice_def min_def drop_take add.commute)
  have "slice data' (pos + a) (pos + b) = slice data (pos + a) (pos + b)" if "b \<le> 40" for a b
    using sub [OF that, of data'] sub [OF that, of data] assms(1) by simp
  note eq = this
  have e0: "slice data' pos (pos + 8) = slice data pos (pos + 8)"
    using eq [of 8 0] by simp
  show ?thesis
    using assms(2,3) e0 eq [of 12 8] eq [of 16 12] eq [of 20 16] eq [of 24 20] eq [of 40 36]
    by (simp add: read_section_def read_defs unpack_from_slice add.assoc)
qed

subsection \<open>The checksum\<close>

lemma and_65535: "(x::nat) AND 0xFFFF = x mod 65536"
proof -
  have "x AND mask 16 = x mod 2 ^ 16"
    by (simp only: take_bit_eq_mask [symmetric] take_bit_eq_mod)
  then show ?thesis by (simp add: mask_eq_exp_minus_1)
qed

lemma and_32bit: "(x::nat) AND 0xFFFFFFFF = x mod 4294967296"
proof -
  have "x AND mask 32 = x mod 2 ^ 32"
    by (simp only: take_bit_eq_mask [symmetric] take_bit_eq_mod)
  then show ?thesis by (simp add: mask_eq_exp_minus_1)
qed

lemma fold_max_ge: "y \<in> set (x # r) \<Longrightarrow> y \<le> fold max r (x::nat)"
  by (simp only: Max.set_eq_fold [symmetric]) simp

lemma max_default_ge: "y \<in> set xs \<Longrightarrow> y \<le> max_default xs d"
  by (cases xs) (simp_all add: max_default_def fold_max_ge del: fold_simps)

lemma min_default_le: "y \<in> set xs \<Longrightarrow> min_default xs d \<le> y"
proof -
  have "y \<in> set (x # r) \<Longrightarrow> fold min r (x::nat) \<le> y" for x r
    by (simp only: Min.set_eq_fold [symmetric]) simp
  then show "y \<in> set xs \<Longrightarrow> min_default xs d \<le> y"
    by (cases xs) (simp_all add: min_default_def del: fold_simps)
qed

lemma max_default_in: "xs \<noteq> [] \<Longrightarrow> max_default xs d \<in> set xs"
proof -
  have "fold max r (x::nat) \<in> set (x # r)" for x r
    using Max_in [of "set (x # r)"] by (simp only: Max.set_eq_fold [symmetric]) simp
  then show "xs \<noteq> [] \<Longrightarrow> max_default xs d \<in> set xs"
    by (cases xs) (simp_all add: max_default_def del: fold_simps)
qed

lemma min_default_in: "xs \<noteq> [] \<Longrightarrow> min_default xs d \<in> set xs"
proof -
  have "fold min r (x::nat) \<in> set (x # r)" for x r
    using Min_in [of "set (x # r)"] by (simp only: Min.set_eq_fold [symmetric]) simp
  then show "xs \<noteq> [] \<Longrightarrow> min_default xs d \<in> set xs"
    by (cases xs) (simp_all add: min_default_def del: fold_simps)
qed

lemma checksum_of_bound: "checksum_of data \<le> length data + 0xFFFF"
proof -
  have "x mod 65536 \<le> 65535" for x :: nat
    using mod_less_divisor [of 65536 x] by linarith
  then show ?thesis
    by (simp add: checksum_of_def Let_def and_65535)
qed

lemma recompute_checksum_patch:
  assumes "pos + 4 \<le> length data" and "length data + 0xFFFF < 2 ^ 32"
  shows "recompute_checksum data pos
         = Inr (patch data pos (le_encode 4 (checksum_of (patch data pos (le_encode 4 0)))))"
proof -
  let ?z = "patch data pos (le_encode 4 0)"
  have z: "write_u32 data pos 0 = Inr ?z"
    using assms(1) by (simp add: write_u32_def pack_into_patch)
  have len: "length ?z = length data"
    using assms(1) by simp
  have "checksum_of ?z < 2 ^ (8 * 4)"
    using checksum_of_bound [of ?z] assms(2) len by simp
  then have "write_u32 ?z pos (checksum_of ?z) = Inr (patch ?z pos (le_encode 4 (checksum_of ?z)))"
    using assms(1) len by (simp only: write_u32_def pack_into_patch)
  moreover have "patch ?z pos (le_encode 4 (checksum_of ?z))
                 = patch data pos (le_encode 4 (checksum_of ?z))"
    using assms(1) by (simp add: patch_patch_same)
  moreover have "recompute_checksum data pos
                 = and_then (write_u32 data pos 0) (\<lambda>d. write_u32 d pos (checksum_of d))"
    by (simp add: recompute_checksum_def checksum_of_def Let_def)
  ultimately show ?thesis
    using z by simp
qed

subsection \<open>The new section header\<close>

lemma length_bun_name [simp]: "length bun_name = 8"
  by (simp add: bun_name_def)

lemma length_sh_bytes [simp]: "length (sh_bytes l) = 40"
  by (simp add: sh_bytes_def)

lemma section_flags: "IMAGE_SCN_CNT_INITIALIZED_DATA OR IMAGE_SCN_MEM_READ = 0x40000040"
  by (simp add: IMAGE_SCN_CNT_INITIALIZED_DATA_def IMAGE_SCN_MEM_READ_def)

lemma new_section_header_eq:
  assumes "payload_len l < 2 ^ 32" "new_va l < 2 ^ 32" "raw_size_new l < 2 ^ 32"
    "new_raw l < 2 ^ 32"
  shows "new_section_header l = Inr (sh_bytes l)"
proof -
  let ?s0 = "bun_name @ replicate 32 0"
  have s0: "slice_assign (replicate SECTION_HEADER_SIZE 0) 0 8 bun_name = ?s0"
    by (simp add: slice_assign_def SECTION_HEADER_SIZE_def)
  let ?s1 = "bun_name @ le_encode 4 (payload_len l) @ replicate 28 0"
  have s1: "pack_into 4 ?s0 8 (payload_len l) = Inr ?s1"
    using assms(1) by (simp add: pack_into_def)
  let ?s2 = "bun_name @ le_encode 4 (payload_len l) @ le_encode 4 (new_va l) @ replicate 24 0"
  have s2: "pack_into 4 ?s1 12 (new_va l) = Inr ?s2"
    using assms(2) by (simp add: pack_into_def)
  let ?s3 = "bun_name @ le_encode 4 (payload_len l) @ le_encode 4 (new_va l)
     @ le_encode 4 (raw_size_new l) @ replicate 20 0"
  have s3: "pack_into 4 ?s2 16 (raw_size_new l) = Inr ?s3"
    using assms(3) by (simp add: pack_into_def)
  let ?s4 = "bun_name @ le_encode 4 (payload_len l) @ le_encode 4 (new_va l)
     @ le_encode 4 (raw_size_new l) @ le_encode 4 (new_raw l) @ replicate 16 0"
  have s4: "pack_into 4 ?s3 20 (new_raw l) = Inr ?s4"
    using assms(4) by (simp add: pack_into_def)
  have s5: "pack_into 4 ?s4 36 0x40000040 = Inr (sh_bytes l)"
    by (simp add: pack_into_def sh_bytes_def)
  show ?thesis
    unfolding new_section_header_def Let_def s0 section_flags
    by (simp only: s1 s2 s3 s4 s5 and_then_Inr)
qed

subsection \<open>The mutator under the planned geometry\<close>

lemma length_grown [simp]:
  "length (grown l data) = max (length data) (new_raw l + raw_size_new l)"
  by (simp add: grown_def)

lemma length_patched:
  assumes "geom p l (length payload)"
  shows "length (patched p l data payload) = max (length data) (new_raw l + raw_size_new l)"
  using assms by (simp add: geom_def patched_def Let_def le_max_iff_disj)

lemma buffer_mutator_patched:
  assumes g: "geom p l (length payload)" and vb: "value_bounds p l"
  shows "buffer_mutator p l data payload
         = recompute_checksum (patched p l data payload) (opt_offset p + 64)"
proof -
  let ?N = "max (length data) (new_raw l + raw_size_new l)"
  let ?b0 = "grown l data"
  have b0: "(if length data < new_raw l + raw_size_new l
             then data @ replicate (new_raw l + raw_size_new l - length data) 0
             else slice_assign data (new_raw l) (new_raw l + raw_size_new l)
                    (replicate (raw_size_new l) 0)) = ?b0"
    using slice_assign_patch [of data "new_raw l" "replicate (raw_size_new l) 0"]
    by (simp add: grown_def)
  have sh: "new_section_header l = Inr (sh_bytes l)"
    using vb by (intro new_section_header_eq) (simp_all add: value_bounds_def)
  let ?b1 = "patch ?b0 (new_sh_off l) (sh_bytes l)"
  have b1: "slice_assign ?b0 (new_sh_off l) (new_sh_off l + SECTION_HEADER_SIZE) (sh_bytes l) = ?b1"
    using slice_assign_patch [of ?b0 "new_sh_off l" "sh_bytes l"]
    by (simp add: SECTION_HEADER_SIZE_def)
  have l1: "length ?b1 = ?N"
    using g by (simp add: geom_def le_max_iff_disj)
  let ?b2 = "patch ?b1 (new_raw l) (le_encode 8 (length payload))"
  have b2: "write_u64 ?b1 (new_raw l) (length payload) = Inr ?b2"
    using g vb l1 by (simp add: geom_def value_bounds_def write_u64_def pack_into_patch le_max_iff_disj)
  have l2: "length ?b2 = ?N"
    using g l1 by (simp add: geom_def le_max_iff_disj)
  let ?b3 = "patch ?b2 (new_raw l + 8) payload"
  have b3: "slice_assign ?b2 (new_raw l + 8) (new_raw l + 8 + length payload) payload = ?b3"
    by (rule slice_assign_patch)
  have l3: "length ?b3 = ?N"
    using g l2 by (simp add: geom_def le_max_iff_disj)
  let ?b4 = "patch ?b3 (coff_offset p + 2) (le_encode 2 (num_sections p + 1))"
  have b4: "write_u16 ?b3 (coff_offset p + 2) (num_sections p + 1) = Inr ?b4"
    using g l3 by (simp add: geom_def write_u16_def pack_into_patch le_max_iff_disj)
  have l4: "length ?b4 = ?N"
    using g l3 by (simp add: geom_def le_max_iff_disj)
  let ?b5 = "if size_of_headers p < new_size_of_headers l
             then patch ?b4 (opt_offset p + 60) (le_encode 4 (new_size_of_headers l)) else ?b4"
  have b5: "(if size_of_headers p < new_size_of_headers l
             then write_u32 ?b4 (opt_offset p + 60) (new_size_of_headers l)
             else Inr ?b4) = Inr ?b5"
    using g vb l4 by (simp add: geom_def value_bounds_def write_u32_def pack_into_patch le_max_iff_disj)
  have l5: "length ?b5 = ?N"
    using g l4 by (simp add: geom_def le_max_iff_disj)
  let ?b6 = "patch ?b5 (opt_offset p + 56)
               (le_encode 4 (align_up (new_va l + payload_len l) (section_alignment p)))"
  have b6: "write_u32 ?b5 (opt_offset p + 56)
              (align_up (new_va l + payload_len l) (section_alignment p)) = Inr ?b6"
  proof -
    have "align_up (new_va l + payload_len l) (section_alignment p) < 2 ^ 32"
      using vb unfolding value_bounds_def by blast
    then have "align_up (new_va l + payload_len l) (section_alignment p) < 2 ^ (8 * 4)"
      by simp
    moreover have "opt_offset p + 56 + 4 \<le> length ?b5"
      using g l5 by (simp add: geom_def le_max_iff_disj)
    ultimately show ?thesis
      unfolding write_u32_def by (rule pack_into_patch)
  qed
  have l6: "length ?b6 = ?N"
    using g l5 by (simp add: geom_def le_max_iff_disj)
  let ?b7 = "patch ?b6 (opt_offset p + 144) (replicate 8 0)"
  have b7: "slice_assign ?b6 (security_dd_offset p) (security_dd_offset p + 8) (replicate 8 0) = ?b7"
    using g slice_assign_patch [of ?b6 "opt_offset p + 144" "replicate 8 0"]
    by (simp add: geom_def le_max_iff_disj)
  have p7: "?b7 = patched p l data payload"
    by (simp add: patched_def Let_def)
  have co: "checksum_offset p = opt_offset p + 64"
    using g by (simp add: geom_def)
  show ?thesis
    unfolding buffer_mutator_def Let_def b0 sh and_then_Inr b1 b2 b3 b4 b5 b6 b7 p7 co ..
qed

lemma parse_imageD:
  assumes "parse_image data = Inr p"
  shows "read_u32 data 0x3C = Inr (e_lfanew p)"
    and "slice data (e_lfanew p) (e_lfanew p + 4) = pe_sig"
    and "coff_offset p = e_lfanew p + 4"
    and "read_u16 data (e_lfanew p + 4) = Inr (machine p)"
    and "read_u16 data (e_lfanew p + 6) = Inr (num_sections p)"
    and "read_u16 data (e_lfanew p + 20) = Inr (size_of_optional p)"
    and "opt_offset p = e_lfanew p + 24"
    and "read_u16 data (e_lfanew p + 24) = Inr 0x20B"
    and "read_u32 data (e_lfanew p + 60) = Inr (file_alignment p)"
    and "read_u32 data (e_lfanew p + 56) = Inr (section_alignment p)"
    and "read_u32 data (e_lfanew p + 80) = Inr (size_of_image p)"
    and "read_u32 data (e_lfanew p + 84) = Inr (size_of_headers p)"
    and "checksum_offset p = e_lfanew p + 88"
    and "security_dd_offset p = e_lfanew p + 168"
    and "section_headers_offset p = e_lfanew p + 24 + size_of_optional p"
    and "parse_sections data (section_headers_offset p) (num_sections p) = Inr (sections p)"
  using assms unfolding parse_image_def Let_def
  by (auto simp add: and_then_Inr_iff add.commute split: if_splits)

subsection \<open>What a successful run implies\<close>

lemma length_patch_ge: "length data \<le> length (patch data pos bs)"
  by (simp add: patch_def)

lemma nth_patch_prefix:
  "i < pos \<Longrightarrow> i < length data \<Longrightarrow> patch data pos bs ! i = data ! i"
  by (simp add: patch_def nth_append)

lemma slice_patch_prefix:
  assumes "b \<le> pos" and "b \<le> length data"
  shows "slice (patch data pos bs) a b = slice data a b"
proof (rule slice_nth_eq)
  show "b \<le> length (patch data pos bs)"
    using assms(2) length_patch_ge [of data pos bs] by linarith
  show "b \<le> length data" by (rule assms(2))
  show "patch data pos bs ! i = data ! i" if "a \<le> i" "i < b" for i
    using that assms by (intro nth_patch_prefix) simp_all
qed

lemma pack_into_Inr_iff:
  "pack_into n data pos val = Inr d \<longleftrightarrow>
     val < 2 ^ (8 * n) \<and> pos + n \<le> length data \<and> d = patch data pos (le_encode n val)"
  by (auto simp add: pack_into_def patch_def)

lemma recompute_checksum_Inr_iff:
  "recompute_checksum data pos = Inr out \<longleftrightarrow>
     pos + 4 \<le> length data \<and>
     checksum_of (patch data pos (le_encode 4 0)) < 2 ^ 32 \<and>
     out = patch data pos (le_encode 4 (checksum_of (patch data pos (le_encode 4 0))))"
proof -
  have alt: "recompute_checksum data pos
             = and_then (write_u32 data pos 0) (\<lambda>d. write_u32 d pos (checksum_of d))"
    by (simp add: recompute_checksum_def checksum_of_def Let_def)
  show ?thesis
    unfolding alt
    by (auto simp add: and_then_Inr_iff write_u32_def pack_into_Inr_iff patch_patch_same)
qed

lemma new_section_header_bounds:
  assumes "new_section_header l = Inr sh"
  shows "payload_len l < 2 ^ 32 \<and> new_va l < 2 ^ 32 \<and> raw_size_new l < 2 ^ 32
         \<and> new_raw l < 2 ^ 32"
  using assms unfolding new_section_header_def Let_def
  by (auto simp add: and_then_Inr_iff pack_into_Inr_iff)

lemma buffer_mutator_InrD:
  assumes "buffer_mutator p l data payload = Inr out"
  shows "\<exists>d. length data \<le> length d \<and> value_bounds p l
           \<and> coff_offset p + 4 \<le> length d \<and> opt_offset p + 60 \<le> length d
           \<and> (size_of_headers p < new_size_of_headers l \<longrightarrow> opt_offset p + 64 \<le> length d)
           \<and> recompute_checksum (header_patches p l d) (checksum_offset p) = Inr out"
proof -
  let ?g = "if length data < new_raw l + raw_size_new l
            then data @ replicate (new_raw l + raw_size_new l - length data) 0
            else slice_assign data (new_raw l) (new_raw l + raw_size_new l)
                   (replicate (raw_size_new l) 0)"
  have g: "length data \<le> length ?g"
    using slice_assign_patch [of data "new_raw l" "replicate (raw_size_new l) 0"]
      length_patch_ge [of data "new_raw l" "replicate (raw_size_new l) 0"]
    by simp
  from assms obtain sh d3 d5 d6 d7 where
    sh: "new_section_header l = Inr sh"
    and d3: "write_u64 (slice_assign ?g (new_sh_off l) (new_sh_off l + SECTION_HEADER_SIZE) sh)
               (new_raw l) (length payload) = Inr d3"
    and d5: "write_u16 (slice_assign d3 (new_raw l + 8) (new_raw l + 8 + length payload) payload)
               (coff_offset p + 2) (num_sections p + 1) = Inr d5"
    and d6: "(if size_of_headers p < new_size_of_headers l
              then write_u32 d5 (opt_offset p + 60) (new_size_of_headers l)
              else Inr d5) = Inr d6"
    and d7: "write_u32 d6 (opt_offset p + 56)
               (align_up (new_va l + payload_len l) (section_alignment p)) = Inr d7"
    and out: "recompute_checksum
                (slice_assign d7 (security_dd_offset p) (security_dd_offset p + 8) (replicate 8 0))
                (checksum_offset p) = Inr out"
    unfolding buffer_mutator_def Let_def and_then_Inr_iff by blast
  let ?d2 = "slice_assign ?g (new_sh_off l) (new_sh_off l + SECTION_HEADER_SIZE) sh"
  let ?d4 = "slice_assign d3 (new_raw l + 8) (new_raw l + 8 + length payload) payload"
  have lsh: "length sh = 40"
    using sh unfolding new_section_header_def Let_def
    by (auto simp add: and_then_Inr_iff pack_into_Inr_iff slice_assign_def
        SECTION_HEADER_SIZE_def)
  have "?d2 = patch ?g (new_sh_off l) sh"
    using slice_assign_patch [of ?g "new_sh_off l" sh] by (simp add: lsh SECTION_HEADER_SIZE_def)
  then have l2: "length data \<le> length ?d2"
    using g length_patch_ge [of ?g "new_sh_off l" sh] by simp
  have l3: "length d3 = length ?d2"
    using d3 by (auto simp add: write_u64_def pack_into_Inr_iff)
  have "?d4 = patch d3 (new_raw l + 8) payload"
    by (rule slice_assign_patch)
  then have l4: "length data \<le> length ?d4"
    using l2 l3 length_patch_ge [of d3 "new_raw l + 8" payload] by simp
  have e5: "coff_offset p + 4 \<le> length ?d4"
    and v5: "d5 = patch ?d4 (coff_offset p + 2) (le_encode 2 (num_sections p + 1))"
    using d5 by (auto simp add: write_u16_def pack_into_Inr_iff)
  have e6: "size_of_headers p < new_size_of_headers l \<longrightarrow> opt_offset p + 64 \<le> length ?d4"
    and v6: "d6 = (if size_of_headers p < new_size_of_headers l
               then patch d5 (opt_offset p + 60) (le_encode 4 (new_size_of_headers l)) else d5)"
    using d6 e5 by (auto simp add: write_u32_def pack_into_Inr_iff v5 split: if_splits)
  have l5: "length d5 = length ?d4"
    using e5 by (simp add: v5)
  have l6: "length d6 = length ?d4"
  proof (cases "size_of_headers p < new_size_of_headers l")
    case True
    with e6 have "opt_offset p + 60 + 4 \<le> length d5" by (simp add: l5)
    then show ?thesis using True by (simp add: v6 l5)
  next
    case False
    then show ?thesis by (simp add: v6 l5)
  qed
  have e7: "opt_offset p + 60 \<le> length ?d4"
    and b7: "align_up (new_va l + payload_len l) (section_alignment p) < 2 ^ 32"
    and v7: "d7 = patch d6 (opt_offset p + 56)
               (le_encode 4 (align_up (new_va l + payload_len l) (section_alignment p)))"
    using d7 l6 by (auto simp add: write_u32_def pack_into_Inr_iff)
  have hp: "slice_assign d7 (security_dd_offset p) (security_dd_offset p + 8) (replicate 8 0)
            = header_patches p l ?d4"
    using slice_assign_patch [of d7 "security_dd_offset p" "replicate 8 0"]
    by (simp add: header_patches_def Let_def v7 v6 v5)
  have vb: "value_bounds p l"
    using new_section_header_bounds [OF sh] b7 by (simp add: value_bounds_def)
  show ?thesis
    using l4 vb e5 e6 e7 out unfolding hp by blast
qed

subsection \<open>The geometry of a well-formed image\<close>

lemma layout_planner_fields:
  "new_sh_off (layout_planner p dl bl) = section_headers_offset p + num_sections p * 40"
  "new_sh_end (layout_planner p dl bl) = section_headers_offset p + num_sections p * 40 + 40"
  "first_raw (layout_planner p dl bl)
     = min_default (map raw_ptr (filter (\<lambda>s. raw_size s > 0) (sections p))) dl"
  "new_size_of_headers (layout_planner p dl bl)
     = align_up (section_headers_offset p + num_sections p * 40 + 40) (file_alignment p)"
  "last_file_end (layout_planner p dl bl)
     = max_default (map (\<lambda>s. raw_ptr s + raw_size s) (sections p)) 0"
  "last_va_end (layout_planner p dl bl)
     = max_default (map (\<lambda>s. virtual_addr s
          + align_up (max (virtual_size s) (raw_size s)) (section_alignment p)) (sections p)) 0"
  "payload_len (layout_planner p dl bl) = bl + 8"
  "raw_size_new (layout_planner p dl bl) = align_up (bl + 8) (file_alignment p)"
  "new_va (layout_planner p dl bl)
     = align_up (last_va_end (layout_planner p dl bl)) (section_alignment p)"
  "new_raw (layout_planner p dl bl)
     = align_up (last_file_end (layout_planner p dl bl)) (file_alignment p)"
  by (simp_all add: layout_planner_def Let_def SECTION_HEADER_SIZE_def)

lemma is_pow2D: "is_pow2 a \<Longrightarrow> \<exists>k. a = 2 ^ k"
  by (auto simp add: is_pow2_def)

lemma raw_section_bounds:
  assumes "s \<in> set (sections p)" and "0 < raw_size s"
  shows "first_raw (layout_planner p dl bl) \<le> raw_ptr s"
    and "raw_ptr s + raw_size s \<le> last_file_end (layout_planner p dl bl)"
proof -
  have "raw_ptr s \<in> set (map raw_ptr (filter (\<lambda>s. raw_size s > 0) (sections p)))"
    using assms by auto
  then show "first_raw (layout_planner p dl bl) \<le> raw_ptr s"
    unfolding layout_planner_fields by (rule min_default_le)
  have "raw_ptr s + raw_size s \<in> set (map (\<lambda>s. raw_ptr s + raw_size s) (sections p))"
    using assms by auto
  then show "raw_ptr s + raw_size s \<le> last_file_end (layout_planner p dl bl)"
    unfolding layout_planner_fields by (rule max_default_ge)
qed


lemma geom_wf:
  assumes parse: "parse_image data = Inr p"
    and wf: "well_formed p"
    and limit: "num_sections p < 96"
    and l: "l = layout_planner p (length data) (length payload)"
    and cap: "new_size_of_headers l \<le> first_raw l"
  shows "geom p l (length payload)"
proof -
  from wf obtain kf where fa: "file_alignment p = 2 ^ kf"
    using is_pow2D unfolding well_formed_def by blast
  from wf obtain s where s: "s \<in> set (sections p)" "0 < raw_size s"
    unfolding well_formed_def by blast
  note pd = parse_imageD [OF parse]
  have soo: "152 \<le> size_of_optional p"
    using wf by (simp add: well_formed_def)
  have sho: "opt_offset p + 152 \<le> new_sh_off l"
    using soo pd(7,15) by (simp add: l layout_planner_fields)
  have hdr: "new_size_of_headers l \<le> new_raw l"
  proof -
    have "new_size_of_headers l \<le> first_raw l" by (rule cap)
    also have "\<dots> \<le> raw_ptr s"
      unfolding l using s by (rule raw_section_bounds)
    also have "\<dots> \<le> last_file_end l"
      using raw_section_bounds(2) [OF s, of "length data" "length payload"] by (simp add: l)
    also have "\<dots> \<le> new_raw l"
      using align_up_ge [of "last_file_end l" kf] by (simp add: l layout_planner_fields fa)
    finally show ?thesis .
  qed
  have "new_sh_off l + 40 \<le> new_size_of_headers l"
    using align_up_ge [of "section_headers_offset p + num_sections p * 40 + 40" kf]
    by (simp add: l layout_planner_fields fa)
  with hdr have raw: "new_sh_off l + 40 \<le> new_raw l" by linarith
  have pl: "payload_len l = length payload + 8"
    by (simp add: l layout_planner_fields)
  have rs: "payload_len l \<le> raw_size_new l"
    using align_up_ge [of "length payload + 8" kf] by (simp add: l layout_planner_fields fa)
  show ?thesis
    unfolding geom_def
    using pd(3,7,13,14) sho raw pl rs limit hdr by simp
qed

lemma geomI:
  assumes parse: "parse_image data = Inr p"
    and wf: "well_formed p"
    and limit: "num_sections p < 96"
    and l: "l = layout_planner p (length data) (length payload)"
    and cap: "new_size_of_headers l \<le> first_raw l"
    and fit: "fits p l (length data)"
  shows "geom p l (length payload) \<and> value_bounds p l"
proof -
  from wf obtain ks where sa: "section_alignment p = 2 ^ ks"
    using is_pow2D unfolding well_formed_def by blast
  have g: "geom p l (length payload)"
    using parse wf limit l cap by (rule geom_wf)
  then have pl: "payload_len l = length payload + 8"
    and rs: "payload_len l \<le> raw_size_new l"
    by (simp_all add: geom_def)
  have img: "align_up (new_va l + payload_len l) (section_alignment p) < 2 ^ 32"
    and len: "max (length data) (new_raw l + raw_size_new l) + 0xFFFF < 2 ^ 32"
    using fit by (simp_all add: fits_def)
  have "new_va l \<le> align_up (new_va l + payload_len l) (section_alignment p)"
    using align_up_ge [of "new_va l + payload_len l" ks] by (simp add: sa)
  with img have va: "new_va l < 2 ^ 32" by linarith
  have vb: "value_bounds p l"
    unfolding value_bounds_def
    using img va len rs pl by (simp add: less_max_iff_disj)
  show ?thesis
    using g vb by simp
qed

subsection \<open>Header fields after the patches\<close>

lemma slice_patch_at:
  assumes "pos + length bs \<le> length data" and "b = pos + length bs"
  shows "slice (patch data pos bs) pos b = bs"
  using assms slice_patch_same [of pos bs data] by simp

lemma header_patches_fields:
  assumes off: "opt_offset p = coff_offset p + 20" "security_dd_offset p = opt_offset p + 144"
    and d1: "coff_offset p + 4 \<le> length d" and d2: "opt_offset p + 60 \<le> length d"
    and d3: "size_of_headers p < new_size_of_headers l \<longrightarrow> opt_offset p + 64 \<le> length d"
  shows "length d \<le> length (header_patches p l d)"
    and "slice (header_patches p l d) (coff_offset p + 2) (coff_offset p + 4)
         = le_encode 2 (num_sections p + 1)"
    and "slice (header_patches p l d) (opt_offset p + 56) (opt_offset p + 60)
         = le_encode 4 (align_up (new_va l + payload_len l) (section_alignment p))"
    and "security_dd_offset p + 8 \<le> length d \<Longrightarrow>
         slice (header_patches p l d) (security_dd_offset p) (security_dd_offset p + 8)
         = replicate 8 0"
    and "security_dd_offset p + 8 \<le> length d \<Longrightarrow> length (header_patches p l d) = length d"
proof -
  let ?b4 = "patch d (coff_offset p + 2) (le_encode 2 (num_sections p + 1))"
  let ?b5 = "if size_of_headers p < new_size_of_headers l
             then patch ?b4 (opt_offset p + 60) (le_encode 4 (new_size_of_headers l)) else ?b4"
  let ?b6 = "patch ?b5 (opt_offset p + 56)
               (le_encode 4 (align_up (new_va l + payload_len l) (section_alignment p)))"
  have hp: "header_patches p l d = patch ?b6 (security_dd_offset p) (replicate 8 0)"
    by (simp add: header_patches_def Let_def)
  have l4: "length ?b4 = length d"
    using d1 by simp
  have l5: "length ?b5 = length d"
    using d3 l4 by (cases "size_of_headers p < new_size_of_headers l") simp_all
  have l6: "length ?b6 = length d"
    using d2 l5 by simp
  have s4: "slice ?b4 (coff_offset p + 2) (coff_offset p + 4) = le_encode 2 (num_sections p + 1)"
    using d1 by (intro slice_patch_at) simp_all
  have s5: "slice ?b5 (coff_offset p + 2) (coff_offset p + 4) = le_encode 2 (num_sections p + 1)"
  proof (cases "size_of_headers p < new_size_of_headers l")
    case True
    have "slice (patch ?b4 (opt_offset p + 60) (le_encode 4 (new_size_of_headers l)))
            (coff_offset p + 2) (coff_offset p + 4) = slice ?b4 (coff_offset p + 2) (coff_offset p + 4)"
      using d1 l4 off by (intro slice_patch_prefix) simp_all
    with True s4 show ?thesis by simp
  next
    case False
    with s4 show ?thesis by simp
  qed
  have s6: "slice ?b6 (coff_offset p + 2) (coff_offset p + 4) = le_encode 2 (num_sections p + 1)"
  proof -
    have "slice ?b6 (coff_offset p + 2) (coff_offset p + 4)
          = slice ?b5 (coff_offset p + 2) (coff_offset p + 4)"
      using d1 l5 off by (intro slice_patch_prefix) simp_all
    with s5 show ?thesis by simp
  qed
  show "length d \<le> length (header_patches p l d)"
    unfolding hp using length_patch_ge [of ?b6 "security_dd_offset p" "replicate 8 0"] l6
    by simp
  show "slice (header_patches p l d) (coff_offset p + 2) (coff_offset p + 4)
        = le_encode 2 (num_sections p + 1)"
  proof -
    have "slice (header_patches p l d) (coff_offset p + 2) (coff_offset p + 4)
          = slice ?b6 (coff_offset p + 2) (coff_offset p + 4)"
      unfolding hp using d1 l6 off by (intro slice_patch_prefix) simp_all
    with s6 show ?thesis by simp
  qed
  show "slice (header_patches p l d) (opt_offset p + 56) (opt_offset p + 60)
        = le_encode 4 (align_up (new_va l + payload_len l) (section_alignment p))"
  proof -
    have "slice (header_patches p l d) (opt_offset p + 56) (opt_offset p + 60)
          = slice ?b6 (opt_offset p + 56) (opt_offset p + 60)"
      unfolding hp using d2 l6 off by (intro slice_patch_prefix) simp_all
    also have "\<dots> = le_encode 4 (align_up (new_va l + payload_len l) (section_alignment p))"
      using d2 l5 by (intro slice_patch_at) simp_all
    finally show ?thesis .
  qed
  show "slice (header_patches p l d) (security_dd_offset p) (security_dd_offset p + 8)
        = replicate 8 0" if "security_dd_offset p + 8 \<le> length d"
    unfolding hp
    using that l6 by (intro slice_patch_at) simp_all
  show "length (header_patches p l d) = length d" if "security_dd_offset p + 8 \<le> length d"
    unfolding hp using that l6 by simp
qed

lemma add_bun_section_Inr_iff:
  "add_bun_section data payload = Inr out \<longleftrightarrow>
     (\<exists>p. parse_image data = Inr p \<and> num_sections p < 96 \<and>
          new_size_of_headers (layout_planner p (length data) (length payload))
            \<le> first_raw (layout_planner p (length data) (length payload)) \<and>
          buffer_mutator p (layout_planner p (length data) (length payload)) data payload = Inr out)"
  by (auto simp add: add_bun_section_def and_then_Inr_iff Let_def)

lemma unpack_from_eqI:
  assumes "slice data pos b = le_encode n v" and "b = pos + n" and "v < 2 ^ (8 * n)"
    and "b \<le> length data"
  shows "unpack_from n data pos = Inr v"
  using assms le_decode_encode [of v n] by (simp add: unpack_from_slice)

lemma run_fields:
  assumes parse: "parse_image data = Inr p"
    and run: "add_bun_section data payload = Inr out"
    and l: "l = layout_planner p (length data) (length payload)"
  shows "num_sections p < 96"
    and "new_size_of_headers l \<le> first_raw l"
    and "value_bounds p l"
    and "buffer_mutator p l data payload = Inr out"
    and "length data \<le> length out"
    and "read_u16 out (coff_offset p + 2) = Inr (num_sections p + 1)"
    and "read_u32 out (opt_offset p + 56)
         = Inr (align_up (new_va l + payload_len l) (section_alignment p))"
    and "security_dd_offset p + 8 \<le> length data \<Longrightarrow>
         slice out (security_dd_offset p) (security_dd_offset p + 8) = replicate 8 0"
proof -
  from run parse show lim: "num_sections p < 96"
    and cap: "new_size_of_headers l \<le> first_raw l"
    and bm: "buffer_mutator p l data payload = Inr out"
    by (auto simp add: add_bun_section_Inr_iff l)
  note pd = parse_imageD [OF parse]
  have off: "opt_offset p = coff_offset p + 20" "security_dd_offset p = opt_offset p + 144"
    and co: "checksum_offset p = opt_offset p + 64"
    using pd(3,7,13,14) by simp_all
  from buffer_mutator_InrD [OF bm] obtain d where
    ld: "length data \<le> length d" and vb: "value_bounds p l"
    and d1: "coff_offset p + 4 \<le> length d" and d2: "opt_offset p + 60 \<le> length d"
    and d3: "size_of_headers p < new_size_of_headers l \<longrightarrow> opt_offset p + 64 \<le> length d"
    and rc: "recompute_checksum (header_patches p l d) (checksum_offset p) = Inr out"
    by blast
  show "value_bounds p l" by (rule vb)
  let ?hp = "header_patches p l d"
  note hf = header_patches_fields [OF off d1 d2 d3]
  from rc obtain v where
    r1: "opt_offset p + 64 + 4 \<le> length ?hp"
    and out: "out = patch ?hp (opt_offset p + 64) (le_encode 4 v)"
    unfolding recompute_checksum_Inr_iff co by blast
  have lo: "length out = length ?hp"
    using r1 by (simp add: out)
  show "length data \<le> length out"
    using ld hf(1) lo by linarith
  have c: "slice out (coff_offset p + 2) (coff_offset p + 4) = le_encode 2 (num_sections p + 1)"
  proof -
    have "slice out (coff_offset p + 2) (coff_offset p + 4)
          = slice ?hp (coff_offset p + 2) (coff_offset p + 4)"
      unfolding out using r1 off by (intro slice_patch_prefix) simp_all
    with hf(2) show ?thesis by simp
  qed
  show "read_u16 out (coff_offset p + 2) = Inr (num_sections p + 1)"
    unfolding read_u16_def using c
  proof (rule unpack_from_eqI)
    show "coff_offset p + 4 = coff_offset p + 2 + 2" by simp
    show "num_sections p + 1 < 2 ^ (8 * 2)" using lim by simp
    show "coff_offset p + 4 \<le> length out" using r1 lo off by simp
  qed
  have i: "slice out (opt_offset p + 56) (opt_offset p + 60)
           = le_encode 4 (align_up (new_va l + payload_len l) (section_alignment p))"
  proof -
    have "slice out (opt_offset p + 56) (opt_offset p + 60)
          = slice ?hp (opt_offset p + 56) (opt_offset p + 60)"
      unfolding out using r1 by (intro slice_patch_prefix) simp_all
    with hf(3) show ?thesis by simp
  qed
  show "read_u32 out (opt_offset p + 56)
         = Inr (align_up (new_va l + payload_len l) (section_alignment p))"
    unfolding read_u32_def using i
  proof (rule unpack_from_eqI)
    show "opt_offset p + 60 = opt_offset p + 56 + 4" by simp
    show "align_up (new_va l + payload_len l) (section_alignment p) < 2 ^ (8 * 4)"
      using vb by (simp add: value_bounds_def)
    show "opt_offset p + 60 \<le> length out" using r1 lo by simp
  qed
  show "slice out (security_dd_offset p) (security_dd_offset p + 8) = replicate 8 0"
    if "security_dd_offset p + 8 \<le> length data"
  proof -
    have s: "security_dd_offset p + 8 \<le> length d"
      using that ld by linarith
    have "slice out (security_dd_offset p) (security_dd_offset p + 8)
          = slice ?hp (security_dd_offset p) (security_dd_offset p + 8)"
      unfolding out using r1 off by (intro slice_patch_after) simp_all
    with hf(4) [OF s] show ?thesis by simp
  qed
qed

subsection \<open>Parsing a synthetic image\<close>

lemma length_pe_sig [simp]: "length pe_sig = 4"
  by (simp add: pe_sig_def)

lemma length_synth_header [simp]:
  "length (synth_header fa sa soi soh sec_addr sec_size n) = 328"
  by (simp add: synth_header_def)

lemma length_encode_section [simp]:
  "length (name s) = 8 \<Longrightarrow> length (encode_section s) = 40"
  by (simp add: encode_section_def)

lemma slice_append_right:
  "length xs \<le> a \<Longrightarrow> slice (xs @ ys) a b = slice ys (a - length xs) (b - length xs)"
  by (simp add: slice_def)

lemma slice_whole: "b = length xs \<Longrightarrow> slice (xs @ ys) 0 b = xs"
  by (simp add: slice_def)

lemma synth_header_slices:
  "slice (synth_header fa sa soi soh sec_addr sec_size n) 60 64 = le_encode 4 0x40"
  "slice (synth_header fa sa soi soh sec_addr sec_size n) 64 68 = pe_sig"
  "slice (synth_header fa sa soi soh sec_addr sec_size n) 68 70 = le_encode 2 0x8664"
  "slice (synth_header fa sa soi soh sec_addr sec_size n) 70 72 = le_encode 2 n"
  "slice (synth_header fa sa soi soh sec_addr sec_size n) 84 86 = le_encode 2 240"
  "slice (synth_header fa sa soi soh sec_addr sec_size n) 88 90 = le_encode 2 0x20B"
  "slice (synth_header fa sa soi soh sec_addr sec_size n) 124 128 = le_encode 4 fa"
  "slice (synth_header fa sa soi soh sec_addr sec_size n) 120 124 = le_encode 4 sa"
  "slice (synth_header fa sa soi soh sec_addr sec_size n) 144 148 = le_encode 4 soi"
  "slice (synth_header fa sa soi soh sec_addr sec_size n) 148 152 = le_encode 4 soh"
  "slice (synth_header fa sa soi soh sec_addr sec_size n) 232 240
     = le_encode 4 sec_addr @ le_encode 4 sec_size"
  by (simp_all add: synth_header_def slice_def)

lemma read_section_encoded:
  assumes "encodable s"
  shows "read_section (pre @ encode_section s @ post) (length pre) = Inr (s\<lparr>off := length pre\<rparr>)"
proof -
  have n: "length (name s) = 8" using assms by (simp add: encodable_def)
  have sl: "slice (pre @ encode_section s @ post) (length pre + a) (length pre + b)
            = slice (encode_section s) a b" if "b \<le> 40" for a b
    using that n by (simp add: slice_def)
  have sl0: "slice (pre @ encode_section s @ post) (length pre) (length pre + b)
            = slice (encode_section s) 0 b" if "b \<le> 40" for b
    using sl [OF that, of 0] by simp
  have f: "slice (encode_section s) 0 8 = name s"
    "slice (encode_section s) 8 12 = le_encode 4 (virtual_size s)"
    "slice (encode_section s) 12 16 = le_encode 4 (virtual_addr s)"
    "slice (encode_section s) 16 20 = le_encode 4 (raw_size s)"
    "slice (encode_section s) 20 24 = le_encode 4 (raw_ptr s)"
    "slice (encode_section s) 36 40 = le_encode 4 (chars s)"
    using n by (simp_all add: encode_section_def slice_def)
  have d: "le_decode (le_encode 4 (virtual_size s)) = virtual_size s"
    "le_decode (le_encode 4 (virtual_addr s)) = virtual_addr s"
    "le_decode (le_encode 4 (raw_size s)) = raw_size s"
    "le_decode (le_encode 4 (raw_ptr s)) = raw_ptr s"
    "le_decode (le_encode 4 (chars s)) = chars s"
    using assms by (simp_all add: encodable_def le_decode_encode)
  have "length pre + 40 \<le> length (pre @ encode_section s @ post)"
    using n by simp
  then show ?thesis
    unfolding read_section_Inr_iff
    using sl0 [of 8] sl [of 12 8] sl [of 16 12] sl [of 20 16] sl [of 24 20] sl [of 40 36]
    by (simp add: f d)
qed

lemma parse_sections_encoded:
  assumes "\<forall>s\<in>set ss. encodable s"
  shows "parse_sections (pre @ concat (map encode_section ss) @ post) (length pre) (length ss)
         = Inr (relocate (length pre) ss)"
  using assms
proof (induction ss arbitrary: pre)
  case Nil
  then show ?case by simp
next
  case (Cons s ss)
  have e: "encodable s" and n: "length (name s) = 8" and nb: "name s \<noteq> bun_name"
    using Cons.prems by (simp_all add: encodable_def)
  have r: "read_section (pre @ encode_section s @ concat (map encode_section ss) @ post) (length pre)
           = Inr (s\<lparr>off := length pre\<rparr>)"
    using e by (rule read_section_encoded)
  have "parse_sections ((pre @ encode_section s) @ concat (map encode_section ss) @ post)
          (length (pre @ encode_section s)) (length ss)
        = Inr (relocate (length (pre @ encode_section s)) ss)"
    using Cons.prems by (intro Cons.IH) simp
  then have t: "parse_sections (pre @ encode_section s @ concat (map encode_section ss) @ post)
          (length pre + 40) (length ss) = Inr (relocate (length pre + 40) ss)"
    using n by simp
  show ?case
    using r t nb by (simp add: SECTION_HEADER_SIZE_def)
qed

lemma parse_synth_image:
  assumes "fa < 2 ^ 32" "sa < 2 ^ 32" "soi < 2 ^ 32" "soh < 2 ^ 32" "length secs < 2 ^ 16"
    and "\<forall>s\<in>set secs. encodable s"
  shows "parse_image (synth_image fa sa soi soh sec_addr sec_size secs body)
         = Inr \<lparr>e_lfanew = 64, coff_offset = 68, machine = 0x8664,
                num_sections = length secs, size_of_optional = 240, opt_offset = 88,
                file_alignment = fa, section_alignment = sa, size_of_image = soi,
                size_of_headers = soh, checksum_offset = 152, security_dd_offset = 232,
                section_headers_offset = 328, sections = relocate 328 secs\<rparr>"
proof -
  let ?h = "synth_header fa sa soi soh sec_addr sec_size (length secs)"
  let ?img = "synth_image fa sa soi soh sec_addr sec_size secs body"
  have img: "?img = ?h @ concat (map encode_section secs) @ body"
    by (simp add: synth_image_def)
  have sl: "slice ?img a b = slice ?h a b" if "b \<le> 328" for a b
    unfolding img using that by (intro slice_append_left) simp
  have len: "328 \<le> length ?img"
    by (simp add: img)
  have rd: "unpack_from n ?img pos = Inr v"
    if "slice ?h pos (pos + n) = le_encode n v" "v < 2 ^ (8 * n)" "pos + n \<le> 328" for n pos v
  proof (rule unpack_from_eqI)
    show "slice ?img pos (pos + n) = le_encode n v"
      using that(1) sl [OF that(3)] by simp
    show "pos + n = pos + n" ..
    show "v < 2 ^ (8 * n)" by (rule that(2))
    show "pos + n \<le> length ?img" using that(3) len by linarith
  qed
  note hs = synth_header_slices [of fa sa soi soh sec_addr sec_size "length secs"]
  have r1: "read_u32 ?img 0x3C = Inr 64"
    unfolding read_u32_def using hs(1) by (intro rd) simp_all
  have r2: "slice ?img 64 68 = pe_sig"
    using sl [of 68 64] hs(2) by simp
  have r3: "read_u16 ?img 68 = Inr 0x8664"
    unfolding read_u16_def using hs(3) by (intro rd) simp_all
  have r4: "read_u16 ?img 70 = Inr (length secs)"
    unfolding read_u16_def using hs(4) assms(5) by (intro rd) simp_all
  have r5: "read_u16 ?img 84 = Inr 240"
    unfolding read_u16_def using hs(5) by (intro rd) simp_all
  have r6: "read_u16 ?img 88 = Inr 0x20B"
    unfolding read_u16_def using hs(6) by (intro rd) simp_all
  have r7: "read_u32 ?img 124 = Inr fa"
    unfolding read_u32_def using hs(7) assms(1) by (intro rd) simp_all
  have r8: "read_u32 ?img 120 = Inr sa"
    unfolding read_u32_def using hs(8) assms(2) by (intro rd) simp_all
  have r9: "read_u32 ?img 144 = Inr soi"
    unfolding read_u32_def using hs(9) assms(3) by (intro rd) simp_all
  have r10: "read_u32 ?img 148 = Inr soh"
    unfolding read_u32_def using hs(10) assms(4) by (intro rd) simp_all
  have ps: "parse_sections ?img 328 (length secs) = Inr (relocate 328 secs)"
    unfolding img using parse_sections_encoded [OF assms(6), of ?h body] by simp
  show ?thesis
    unfolding parse_image_def
    by (simp add: Let_def r1 r2 r3 r4 r5 r6 r7 r8 r9 r10 ps)
qed

subsection \<open>Success, and the signed image\<close>

lemma add_bun_section_succeeds:
  assumes parse: "parse_image data = Inr p"
    and wf: "well_formed p"
    and limit: "num_sections p < 96"
    and l: "l = layout_planner p (length data) (length payload)"
    and cap: "new_size_of_headers l \<le> first_raw l"
    and fit: "fits p l (length data)"
  shows "add_bun_section data payload = Inr (mutated p l data payload)"
proof -
  from geomI [OF parse wf limit l cap fit]
  have g: "geom p l (length payload)" and vb: "value_bounds p l" by simp_all
  have len: "length (patched p l data payload) + 0xFFFF < 2 ^ 32"
    using fit by (simp add: length_patched [OF g] fits_def)
  have "opt_offset p + 64 + 4 \<le> length (patched p l data payload)"
    using g by (simp add: length_patched [OF g] geom_def le_max_iff_disj)
  then have "recompute_checksum (patched p l data payload) (opt_offset p + 64)
             = Inr (mutated p l data payload)"
    using len by (simp add: recompute_checksum_patch mutated_def Let_def)
  then have "buffer_mutator p l data payload = Inr (mutated p l data payload)"
    using buffer_mutator_patched [OF g vb] by simp
  then show ?thesis
    using parse limit cap by (simp add: add_bun_section_def l [symmetric])
qed

lemma encodable_text_section: "encodable text_section"
  by (simp add: encodable_def text_section_def bun_name_def)

lemma parse_signed_image: "parse_image signed_image = Inr signed_view"
  unfolding signed_image_def signed_view_def
  using parse_synth_image [of "0x200" "0x1000" "0x2000" "0x200" "[text_section]" "0x400" "0x10"]
    encodable_text_section
  by simp

lemma length_signed_image: "length signed_image = 1040"
  by (simp add: signed_image_def synth_image_def encode_section_def text_section_def)

lemma is_pow2_512: "is_pow2 512"
  unfolding is_pow2_def by (rule bexI [of _ 9]) simp_all

lemma is_pow2_4096: "is_pow2 4096"
  unfolding is_pow2_def by (rule bexI [of _ 12]) simp_all

lemma well_formed_signed_view: "well_formed signed_view"
  by (simp add: well_formed_def signed_view_def is_pow2_512 is_pow2_4096 text_section_def)

lemma align_up_512: "align_up v 512 = ((v + 511) div 512) * 512"
  using align_up_pow2 [of v 9] by simp

lemma align_up_4096: "align_up v 4096 = ((v + 4095) div 4096) * 4096"
  using align_up_pow2 [of v 12] by simp

lemma layout_signed:
  "layout_planner signed_view 1040 2 =
     \<lparr>new_sh_off = 368, new_sh_end = 408, first_raw = 512, new_size_of_headers = 512,
      last_file_end = 1024, last_va_end = 8192, payload_len = 10, raw_size_new = 512,
      new_va = 8192, new_raw = 1024\<rparr>"
  by (simp add: layout_planner_def Let_def signed_view_def text_section_def
      SECTION_HEADER_SIZE_def min_default_def max_default_def align_up_512 align_up_4096)

subsection \<open>Rounding up\<close>

lemma round_up_align_up: "is_pow2 a \<Longrightarrow> align_up v a = round_up v a"
  using align_up_pow2 by (auto simp add: is_pow2_def round_up_def)

lemma round_up_next_multiple:
  assumes "0 < a"
  shows "a dvd round_up x a" and "x \<le> round_up x a" and "round_up x a < x + a"
    and "a dvd m \<Longrightarrow> x \<le> m \<Longrightarrow> round_up x a \<le> m"
proof -
  show "a dvd round_up x a" by (simp add: round_up_def)
  have dm: "x + a - 1 = (x + a - 1) div a * a + (x + a - 1) mod a"
    by (rule div_mult_mod_eq [symmetric])
  have "(x + a - 1) mod a < a" using assms by simp
  with dm have "x + a - 1 < round_up x a + a"
    unfolding round_up_def by linarith
  then show "x \<le> round_up x a" using assms by linarith
  have "(x + a - 1) div a * a \<le> x + a - 1" by simp
  then show "round_up x a < x + a" unfolding round_up_def using assms by linarith
  show "round_up x a \<le> m" if "a dvd m" "x \<le> m"
  proof -
    from that(1) obtain q where m: "m = q * a" by (auto simp add: dvd_def mult.commute)
    have "x + a - 1 < (q + 1) * a" using that(2) assms by (simp add: m)
    then have "(x + a - 1) div a < q + 1"
      using assms by (simp add: div_less_iff_less_mult)
    then have "(x + a - 1) div a \<le> q" by simp
    then show ?thesis unfolding round_up_def m by simp
  qed
qed


lemma add_bun_section_succeeds_at:
  assumes "parse_image data = Inr p" and "well_formed p" and "num_sections p < 96"
    and "length data = dl" and "length payload = pl"
    and "new_size_of_headers (layout_planner p dl pl) \<le> first_raw (layout_planner p dl pl)"
    and "fits p (layout_planner p dl pl) dl"
  shows "add_bun_section data payload = Inr (mutated p (layout_planner p dl pl) data payload)"
  using assms add_bun_section_succeeds [of data p "layout_planner p dl pl" payload] by simp

lemma signed_view_fields:
  "num_sections signed_view = 1" "section_alignment signed_view = 4096"
  "security_dd_offset signed_view = 232" "opt_offset signed_view = 88"
  "coff_offset signed_view = 68" "size_of_image signed_view = 8192"
  by (simp_all add: signed_view_def)

lemma fits_signed: "fits signed_view (layout_planner signed_view 1040 2) 1040"
  by (simp add: fits_def layout_signed signed_view_fields align_up_4096)

lemma signed_run:
  "add_bun_section signed_image [1, 2]
   = Inr (mutated signed_view (layout_planner signed_view 1040 2) signed_image [1, 2])"
  using parse_signed_image well_formed_signed_view
proof (rule add_bun_section_succeeds_at)
  show "num_sections signed_view < 96" by (simp add: signed_view_fields)
  show "length signed_image = 1040" by (rule length_signed_image)
  show "length [1, 2 :: byte] = 2" by simp
  show "new_size_of_headers (layout_planner signed_view 1040 2)
        \<le> first_raw (layout_planner signed_view 1040 2)"
    by (simp add: layout_signed)
  show "fits signed_view (layout_planner signed_view 1040 2) 1040"
    by (rule fits_signed)
qed

lemma le_encode_4: "le_encode 4 v = [word_of_nat (v mod 256), word_of_nat (v div 256 mod 256),
     word_of_nat (v div 256 div 256 mod 256), word_of_nat (v div 256 div 256 div 256 mod 256)]"
proof -
  have "(4::nat) = Suc (Suc (Suc (Suc 0)))" by simp
  then show ?thesis by (simp only: le_encode.simps)
qed

lemma le_encode_2: "le_encode 2 v = [word_of_nat (v mod 256), word_of_nat (v div 256 mod 256)]"
proof -
  have "(2::nat) = Suc (Suc 0)" by simp
  then show ?thesis by (simp only: le_encode.simps)
qed

lemma replicate_4: "replicate 4 x = [x, x, x, x]"
proof -
  have "(4::nat) = Suc (Suc (Suc (Suc 0)))" by simp
  then show ?thesis by (simp only: replicate.simps)
qed

lemma le_encode_4_zero: "le_encode 4 0 = replicate 4 0"
  by (simp add: le_encode_4 replicate_4)

lemma encodable_numbered_section: "i < 100 \<Longrightarrow> encodable (numbered_section i)"
  by (simp add: encodable_def numbered_section_def bun_name_def)

lemma parse_many_sections_image:
  assumes "n \<le> 96"
  shows "parse_image (many_sections_image n) = Inr (many_sections_view n)"
proof -
  have "\<forall>s\<in>set (map numbered_section [0..<n]). encodable s"
    using assms by (auto intro: encodable_numbered_section)
  moreover have "0x2000 + n * 0x1000 < (2::nat) ^ 32" using assms by simp
  moreover have "length (map numbered_section [0..<n]) < 2 ^ 16" using assms by simp
  ultimately show ?thesis
    unfolding many_sections_image_def many_sections_view_def
    using parse_synth_image [of "0x200" "0x1000" "0x2000 + n * 0x1000" "0x1200"
        "map numbered_section [0..<n]" 0 0]
    by simp
qed

lemma length_many_sections_image:
  assumes "n \<le> 96"
  shows "length (many_sections_image n) = 4608 + 512 * n"
proof -
  have "length (concat (map encode_section (map numbered_section [0..<n]))) = 40 * n"
    by (induction n) (simp_all add: numbered_section_def)
  then show ?thesis
    using assms by (simp add: many_sections_image_def synth_image_def)
qed

lemma relocate_map:
  assumes "\<And>s x. f (s\<lparr>off := x\<rparr>) = f s"
  shows "map f (relocate pos ss) = map f ss"
  by (induction ss arbitrary: pos) (simp_all add: assms)

lemma relocate_filter_all:
  assumes "\<And>s x. P (s\<lparr>off := x\<rparr>) = P s" and "\<forall>s\<in>set ss. P s"
  shows "filter P (relocate pos ss) = relocate pos ss"
  using assms(2) by (induction ss arbitrary: pos) (simp_all add: assms(1))

lemma max_default_upt:
  assumes "0 < n" and "\<And>i j. i \<le> j \<Longrightarrow> f i \<le> f j"
  shows "max_default (map f [0..<n]) d = f (n - 1)"
proof (rule antisym)
  have "max_default (map f [0..<n]) d \<in> set (map f [0..<n])"
    using assms(1) by (intro max_default_in) simp
  then obtain i where "i < n" "max_default (map f [0..<n]) d = f i" by auto
  then show "max_default (map f [0..<n]) d \<le> f (n - 1)"
    using assms(2) [of i "n - 1"] by simp
  show "f (n - 1) \<le> max_default (map f [0..<n]) d"
    using assms(1) by (intro max_default_ge) simp
qed

lemma min_default_upt:
  assumes "0 < n" and "\<And>i j. i \<le> j \<Longrightarrow> f i \<le> f j"
  shows "min_default (map f [0..<n]) d = f 0"
proof (rule antisym)
  have "min_default (map f [0..<n]) d \<in> set (map f [0..<n])"
    using assms(1) by (intro min_default_in) simp
  then obtain i where "i < n" "min_default (map f [0..<n]) d = f i" by auto
  then show "f 0 \<le> min_default (map f [0..<n]) d"
    using assms(2) [of 0 i] by simp
  show "min_default (map f [0..<n]) d \<le> f 0"
    using assms(1) by (intro min_default_le) simp
qed

lemma align_up_512_multiple: "align_up (512 * k) 512 = 512 * k"
  by (simp add: align_up_512)

lemma align_up_4096_multiple: "align_up (4096 * k) 4096 = 4096 * k"
  by (simp add: align_up_4096)

lemma layout_many_sections:
  assumes "0 < n"
  shows "layout_planner (many_sections_view n) dl pl =
     \<lparr>new_sh_off = 328 + n * 40, new_sh_end = 368 + n * 40, first_raw = 4608,
      new_size_of_headers = align_up (368 + n * 40) 512,
      last_file_end = 512 * (9 + n), last_va_end = 4096 * (2 + n), payload_len = pl + 8,
      raw_size_new = align_up (pl + 8) 512,
      new_va = 4096 * (2 + n), new_raw = 512 * (9 + n)\<rparr>"
proof -
  let ?ss = "map numbered_section [0..<n]"
  have all: "\<forall>s\<in>set ?ss. 0 < raw_size s"
    by (simp add: numbered_section_def)
  have "map raw_ptr (filter (\<lambda>s. 0 < raw_size s) (relocate 328 ?ss))
        = map raw_ptr (relocate 328 ?ss)"
    using all by (subst relocate_filter_all) simp_all
  also have "\<dots> = map raw_ptr ?ss"
    by (rule relocate_map) simp
  also have "\<dots> = map (\<lambda>i. 4608 + i * 512) [0..<n]"
    by (simp add: numbered_section_def)
  finally have "min_default (map raw_ptr (filter (\<lambda>s. 0 < raw_size s) (relocate 328 ?ss))) dl
                = 4608"
    using min_default_upt [OF assms, of "\<lambda>i. 4608 + i * 512" dl] by simp
  note first = this
  have "map (\<lambda>s. raw_ptr s + raw_size s) (relocate 328 ?ss)
        = map (\<lambda>s. raw_ptr s + raw_size s) ?ss"
    by (rule relocate_map) simp
  also have "\<dots> = map (\<lambda>i. 512 * (10 + i)) [0..<n]"
    by (simp add: numbered_section_def)
  finally have "max_default (map (\<lambda>s. raw_ptr s + raw_size s) (relocate 328 ?ss)) 0
                = 512 * (10 + (n - 1))"
    using max_default_upt [OF assms, of "\<lambda>i. 512 * (10 + i)" 0] by simp
  then have last: "max_default (map (\<lambda>s. raw_ptr s + raw_size s) (relocate 328 ?ss)) 0
                = 512 * (9 + n)"
    using assms by simp
  have "map (\<lambda>s. virtual_addr s + align_up (max (virtual_size s) (raw_size s)) 4096)
          (relocate 328 ?ss)
        = map (\<lambda>s. virtual_addr s + align_up (max (virtual_size s) (raw_size s)) 4096) ?ss"
    by (rule relocate_map) simp
  also have "\<dots> = map (\<lambda>i. 4096 * (3 + i)) [0..<n]"
    by (simp add: numbered_section_def align_up_4096)
  finally have "max_default
      (map (\<lambda>s. virtual_addr s + align_up (max (virtual_size s) (raw_size s)) 4096)
         (relocate 328 ?ss)) 0 = 4096 * (3 + (n - 1))"
    using max_default_upt [OF assms, of "\<lambda>i. 4096 * (3 + i)" 0] by simp
  then have va: "max_default
      (map (\<lambda>s. virtual_addr s + align_up (max (virtual_size s) (raw_size s)) 4096)
         (relocate 328 ?ss)) 0 = 4096 * (2 + n)"
    using assms by simp
  have a1: "align_up (4608 + 512 * n) 512 = 4608 + 512 * n"
    using align_up_512_multiple [of "9 + n"] by simp
  have a2: "align_up (8192 + 4096 * n) 4096 = 8192 + 4096 * n"
    using align_up_4096_multiple [of "2 + n"] by simp
  show ?thesis
    unfolding layout_planner_def Let_def
    by (simp add: many_sections_view_def SECTION_HEADER_SIZE_def first last va a1 a2)
qed

lemma many_sections_view_fields:
  "num_sections (many_sections_view n) = n" "section_alignment (many_sections_view n) = 4096"
  "file_alignment (many_sections_view n) = 512"
  "security_dd_offset (many_sections_view n) = 232" "opt_offset (many_sections_view n) = 88"
  "coff_offset (many_sections_view n) = 68" "e_lfanew (many_sections_view n) = 64"
  "size_of_optional (many_sections_view n) = 240"
  "size_of_image (many_sections_view n) = 8192 + n * 4096"
  "sections (many_sections_view n) = relocate 328 (map numbered_section [0..<n])"
  by (simp_all add: many_sections_view_def)

lemma well_formed_many_sections:
  assumes "0 < n"
  shows "well_formed (many_sections_view n)"
proof -
  have "map raw_size (relocate 328 (map numbered_section [0..<n]))
        = map raw_size (map numbered_section [0..<n])"
    by (rule relocate_map) simp
  then have "set (map raw_size (relocate 328 (map numbered_section [0..<n]))) = {512}"
    using assms by (auto simp add: numbered_section_def)
  then have "\<exists>s\<in>set (relocate 328 (map numbered_section [0..<n])). 0 < raw_size s"
    by (metis (no_types, lifting) image_iff insertI1 list.set_map zero_less_numeral)
  then show ?thesis
    by (simp add: well_formed_def many_sections_view_fields is_pow2_512 is_pow2_4096)
qed

lemma many_sections_run:
  assumes "0 < n" and "n < 96"
  shows "add_bun_section (many_sections_image n) []
         = Inr (mutated (many_sections_view n)
                  (layout_planner (many_sections_view n) (4608 + 512 * n) 0)
                  (many_sections_image n) [])"
proof (rule add_bun_section_succeeds_at)
  show "parse_image (many_sections_image n) = Inr (many_sections_view n)"
    using assms by (intro parse_many_sections_image) simp
  show "well_formed (many_sections_view n)"
    using assms(1) by (rule well_formed_many_sections)
  show "num_sections (many_sections_view n) < 96"
    using assms(2) by (simp add: many_sections_view_fields)
  show "length (many_sections_image n) = 4608 + 512 * n"
    using assms by (intro length_many_sections_image) simp
  show "length ([] :: bytes) = 0" by simp
  have "368 + n * 40 \<le> 4608" using assms(2) by simp
  then have "(368 + n * 40 + 511) div 512 \<le> 9" by simp
  then have h: "align_up (368 + n * 40) 512 \<le> 4608"
    by (simp add: align_up_512)
  show "new_size_of_headers (layout_planner (many_sections_view n) (4608 + 512 * n) 0)
        \<le> first_raw (layout_planner (many_sections_view n) (4608 + 512 * n) 0)"
    using h by (simp add: layout_many_sections [OF assms(1)])
  show "fits (many_sections_view n) (layout_planner (many_sections_view n) (4608 + 512 * n) 0)
          (4608 + 512 * n)"
    using assms(2)
    by (simp add: fits_def layout_many_sections [OF assms(1)] many_sections_view_fields
        align_up_4096 align_up_512)
qed

lemma oversized_view_fields:
  "num_sections oversized_view = 1" "section_alignment oversized_view = 4096"
  "security_dd_offset oversized_view = 232" "opt_offset oversized_view = 88"
  "coff_offset oversized_view = 68" "size_of_image oversized_view = 65536"
  by (simp_all add: oversized_view_def signed_view_def)

lemma parse_oversized_image: "parse_image oversized_image = Inr oversized_view"
  unfolding oversized_image_def oversized_view_def signed_view_def
  using parse_synth_image [of "0x200" "0x1000" "0x10000" "0x200" "[text_section]" 0 0]
    encodable_text_section
  by simp

lemma length_oversized_image: "length oversized_image = 1024"
  by (simp add: oversized_image_def synth_image_def encode_section_def text_section_def)

lemma well_formed_oversized_view: "well_formed oversized_view"
  by (simp add: well_formed_def oversized_view_def signed_view_def is_pow2_512 is_pow2_4096
      text_section_def)

lemma layout_oversized:
  "layout_planner oversized_view 1024 2 =
     \<lparr>new_sh_off = 368, new_sh_end = 408, first_raw = 512, new_size_of_headers = 512,
      last_file_end = 1024, last_va_end = 8192, payload_len = 10, raw_size_new = 512,
      new_va = 8192, new_raw = 1024\<rparr>"
  by (simp add: layout_planner_def Let_def oversized_view_def signed_view_def text_section_def
      SECTION_HEADER_SIZE_def min_default_def max_default_def align_up_512 align_up_4096)

lemma oversized_run:
  "add_bun_section oversized_image [1, 2]
   = Inr (mutated oversized_view (layout_planner oversized_view 1024 2) oversized_image [1, 2])"
  using parse_oversized_image well_formed_oversized_view
proof (rule add_bun_section_succeeds_at)
  show "num_sections oversized_view < 96" by (simp add: oversized_view_fields)
  show "length oversized_image = 1024" by (rule length_oversized_image)
  show "length [1, 2 :: byte] = 2" by simp
  show "new_size_of_headers (layout_planner oversized_view 1024 2)
        \<le> first_raw (layout_planner oversized_view 1024 2)"
    by (simp add: layout_oversized)
  show "fits oversized_view (layout_planner oversized_view 1024 2) 1024"
    by (simp add: fits_def layout_oversized oversized_view_fields align_up_4096)
qed

lemma length_one_two: "length [1, 2 :: byte] = 2"
  by simp

lemma layout_signed_lengths:
  "layout_planner signed_view 1040 2
   = layout_planner signed_view (length signed_image) (length [1, 2 :: byte])"
  by (simp only: length_signed_image length_one_two)

lemma layout_oversized_lengths:
  "layout_planner oversized_view 1024 2
   = layout_planner oversized_view (length oversized_image) (length [1, 2 :: byte])"
  by (simp only: length_oversized_image length_one_two)

lemma le_words_bound: "w \<in> set (le_words bs) \<Longrightarrow> w \<le> 0xFFFF"
proof (induction bs rule: le_words.induct)
  case (1 a b rest)
  have "unat a < 256" "unat b < 256"
    using unsigned_less [of a] unsigned_less [of b] by simp_all
  then have "unat a + 256 * unat b \<le> 0xFFFF" by simp
  with 1 show ?case by auto
qed simp_all

lemma fold_carry32_bound:
  assumes "s \<le> 0xFFFFFFFF" and "w \<le> 0xFFFF"
  shows "fold_carry32 (s + w) \<le> 0xFFFFFFFF"
proof (cases "s + w < 4294967296")
  case True
  then show ?thesis
    by (simp add: fold_carry32_def and_32bit drop_bit_eq_div)
next
  case False
  then have ge: "4294967296 \<le> s + w" by simp
  have lt: "s + w - 4294967296 < 4294967296" using assms by simp
  have m: "(s + w) mod 4294967296 = s + w - 4294967296"
    using ge lt by (simp add: le_mod_geq)
  have d: "(s + w) div 4294967296 = 1"
    using ge lt by (simp add: le_div_geq)
  show ?thesis
    using assms by (simp add: fold_carry32_def and_32bit drop_bit_eq_div m d)
qed

lemma foldl_carry_bound:
  assumes "c \<le> 0xFFFFFFFF" and "\<forall>w\<in>set ws. w \<le> 0xFFFF"
  shows "foldl (\<lambda>s w. fold_carry32 (s + w)) c ws \<le> 0xFFFFFFFF"
  using assms
proof (induction ws arbitrary: c)
  case Nil
  then show ?case by simp
next
  case (Cons w ws)
  have "fold_carry32 (c + w) \<le> 0xFFFFFFFF"
    using Cons.prems by (intro fold_carry32_bound) simp_all
  then show ?case
    using Cons.prems by (simp add: Cons.IH)
qed

lemma code_carry_step:
  "(if c > 0xFFFFFFFF then (c AND 0xFFFFFFFF) + drop_bit 32 c else c) = fold_carry32 (c :: nat)"
  by (simp add: fold_carry32_def and_32bit drop_bit_eq_div)

lemma drop_two:
  assumes "i + 1 < length data"
  shows "drop i data = data ! i # data ! (i + 1) # drop (i + 2) data"
proof -
  have "drop i data = data ! i # drop (Suc i) data"
    using assms by (intro Cons_nth_drop_Suc [symmetric]) simp
  also have "drop (Suc i) data = data ! (Suc i) # drop (Suc (Suc i)) data"
    using assms by (intro Cons_nth_drop_Suc [symmetric]) simp
  finally show ?thesis by simp
qed

lemma checksum_loop_words:
  "checksum_loop data i c = foldl (\<lambda>s w. fold_carry32 (s + w)) c (le_words (drop i data))"
proof (induction data i c rule: checksum_loop.induct)
  case (1 data i c)
  show ?case
  proof (cases "i + 1 < length data")
    case True
    note d = drop_two [OF True]
    have v: "le_decode (take 2 (drop i data)) = unat (data ! i) + 256 * unat (data ! (i + 1))"
      by (simp add: d)
    have "checksum_loop data i c
          = checksum_loop data (i + 2) (fold_carry32 (c + le_decode (take 2 (drop i data))))"
      using True by (subst checksum_loop.simps) (simp add: Let_def code_carry_step)
    also have "\<dots> = foldl (\<lambda>s w. fold_carry32 (s + w))
                     (fold_carry32 (c + le_decode (take 2 (drop i data))))
                     (le_words (drop (i + 2) data))"
      using True by (intro "1.IH") (simp_all add: code_carry_step)
    also have "\<dots> = foldl (\<lambda>s w. fold_carry32 (s + w)) c (le_words (drop i data))"
      by (simp add: d)
    finally show ?thesis .
  next
    case False
    then have "length (drop i data) \<le> 1" by simp
    then have "le_words (drop i data) = []"
      by (cases "drop i data" rule: le_words.cases) simp_all
    then show ?thesis
      using False by (subst checksum_loop.simps) simp
  qed
qed

lemma fold16_twice:
  assumes "s \<le> 0xFFFFFFFF + 255"
  shows "(let c = (s AND 0xFFFF) + drop_bit 16 s; c = c + drop_bit 16 c in c AND 0xFFFF)
         = fold16 (fold16 s)"
proof -
  define q r where "q = s div 65536" and "r = s mod 65536"
  have r: "r < 65536" by (simp add: r_def)
  have s: "s = q * 65536 + r" by (simp add: q_def r_def)
  have q: "q \<le> 65536" using assms s by simp
  have small: "q + r < 131071"
  proof (cases "q = 65536")
    case True
    then have "r \<le> 254" using assms s by simp
    with True show ?thesis by simp
  next
    case False
    with q r show ?thesis by simp
  qed
  have f1: "fold16 s = r + q"
    by (simp add: fold16_def and_65535 drop_bit_eq_div q_def r_def)
  show ?thesis
  proof (cases "r + q < 65536")
    case True
    then show ?thesis
      by (simp add: Let_def f1 fold16_def and_65535 drop_bit_eq_div q_def [symmetric]
          r_def [symmetric])
  next
    case False
    then have ge: "65536 \<le> r + q" by simp
    have lt: "r + q - 65536 < 65536" using small by simp
    have m: "(r + q) mod 65536 = r + q - 65536"
      using ge lt by (simp add: le_mod_geq)
    have d: "(r + q) div 65536 = 1"
      using ge lt by (simp add: le_div_geq)
    have "(r + q + 1) mod 65536 = r + q + 1 - 65536"
    proof -
      have "65536 \<le> r + q + 1" using ge by simp
      moreover have "r + q + 1 - 65536 < 65536" using small by simp
      ultimately show ?thesis by (simp add: le_mod_geq)
    qed
    then show ?thesis
      using ge
      by (simp add: Let_def f1 fold16_def and_65535 drop_bit_eq_div q_def [symmetric]
          r_def [symmetric] m d)
  qed
qed

lemma checksum_of_spec: "checksum_of data
   = (let s = foldl (\<lambda>s w. fold_carry32 (s + w)) 0 (le_words data);
          s = (if odd (length data) then s + unat (last data) else s);
          s = fold16 (fold16 s)
      in s + length data)"
proof -
  let ?s = "foldl (\<lambda>s w. fold_carry32 (s + w)) 0 (le_words data)"
  let ?t = "if odd (length data) then ?s + unat (last data) else ?s"
  have "?s \<le> 0xFFFFFFFF"
    by (intro foldl_carry_bound) (simp_all add: le_words_bound)
  moreover have "unat (last data) < 256"
    using unsigned_less [of "last data"] by simp
  ultimately have "?t \<le> 0xFFFFFFFF + 255" by simp
  from fold16_twice [OF this]
  have tail: "(let c = (?t AND 0xFFFF) + drop_bit 16 ?t; c = c + drop_bit 16 c in c AND 0xFFFF)
              = fold16 (fold16 ?t)" .
  have loop: "checksum_loop data 0 0 = ?s"
    using checksum_loop_words [of data 0 0] by simp
  have odd: "(length data mod 2 \<noteq> 0) = odd (length data)"
    by (simp add: odd_iff_mod_2_eq_one)
  show ?thesis
    unfolding checksum_of_def loop odd
    using tail by (simp add: Let_def)
qed

lemma patch_zero_field:
  "patch data pos (le_encode 4 0) = zero_field data pos"
  by (simp add: patch_def zero_field_def le_encode_4_zero)

lemma checksum_of_zero_field: "checksum_of (zero_field data pos) = spec_checksum data pos"
  by (simp add: checksum_of_spec spec_checksum_def Let_def)

lemma zero_field_patch:
  assumes "pos + 4 \<le> length data" and "length bs = 4"
  shows "zero_field (patch data pos bs) pos = zero_field data pos"
  using assms patch_patch_same [of "le_encode 4 0" bs pos data]
  by (simp add: patch_zero_field [symmetric])

lemma nth_grown:
  assumes "i < max (length data) (new_raw l + raw_size_new l)"
  shows "grown l data ! i
         = (if length data < new_raw l + raw_size_new l
            then (if i < length data then data ! i else 0)
            else (if new_raw l \<le> i \<and> i < new_raw l + raw_size_new l then 0 else data ! i))"
  using assms by (auto simp add: grown_def nth_append nth_patch)

lemma nth_patched_outside:
  assumes g: "geom p l (length payload)"
    and i: "i < max (length data) (new_raw l + raw_size_new l)"
    and o1: "i < coff_offset p + 2 \<or> coff_offset p + 4 \<le> i"
    and o2: "i < opt_offset p + 56 \<or> opt_offset p + 64 \<le> i"
    and o3: "i < opt_offset p + 144 \<or> opt_offset p + 152 \<le> i"
    and o4: "i < new_sh_off l \<or> new_sh_off l + 40 \<le> i"
    and o5: "i < new_raw l \<or> new_raw l + payload_len l \<le> i"
  shows "patched p l data payload ! i = grown l data ! i"
proof -
  let ?N = "max (length data) (new_raw l + raw_size_new l)"
  let ?b0 = "grown l data"
  let ?b1 = "patch ?b0 (new_sh_off l) (sh_bytes l)"
  let ?b2 = "patch ?b1 (new_raw l) (le_encode 8 (length payload))"
  let ?b3 = "patch ?b2 (new_raw l + 8) payload"
  let ?b4 = "patch ?b3 (coff_offset p + 2) (le_encode 2 (num_sections p + 1))"
  let ?b5 = "if size_of_headers p < new_size_of_headers l
             then patch ?b4 (opt_offset p + 60) (le_encode 4 (new_size_of_headers l)) else ?b4"
  let ?b6 = "patch ?b5 (opt_offset p + 56)
               (le_encode 4 (align_up (new_va l + payload_len l) (section_alignment p)))"
  let ?b7 = "patch ?b6 (opt_offset p + 144) (replicate 8 0)"
  have l0: "length ?b0 = ?N" by simp
  have l1: "length ?b1 = ?N" using g by (simp add: geom_def le_max_iff_disj)
  have l2: "length ?b2 = ?N" using g l1 by (simp add: geom_def le_max_iff_disj)
  have l3: "length ?b3 = ?N" using g l2 by (simp add: geom_def le_max_iff_disj)
  have l4: "length ?b4 = ?N" using g l3 by (simp add: geom_def le_max_iff_disj)
  have l5: "length ?b5 = ?N" using g l4 by (simp add: geom_def le_max_iff_disj)
  have l6: "length ?b6 = ?N" using g l5 by (simp add: geom_def le_max_iff_disj)
  have n1: "?b1 ! i = ?b0 ! i"
    using g i o4 by (subst nth_patch) (auto simp add: geom_def le_max_iff_disj)
  have n2: "?b2 ! i = ?b1 ! i"
    using g i o5 l1 by (subst nth_patch) (auto simp add: geom_def le_max_iff_disj)
  have n3: "?b3 ! i = ?b2 ! i"
    using g i o5 l2 by (subst nth_patch) (auto simp add: geom_def le_max_iff_disj)
  have n4: "?b4 ! i = ?b3 ! i"
    using g i o1 l3 by (subst nth_patch) (auto simp add: geom_def le_max_iff_disj)
  have n5: "?b5 ! i = ?b4 ! i"
  proof (cases "size_of_headers p < new_size_of_headers l")
    case True
    have "patch ?b4 (opt_offset p + 60) (le_encode 4 (new_size_of_headers l)) ! i = ?b4 ! i"
      using g i o2 l4 by (subst nth_patch) (auto simp add: geom_def le_max_iff_disj)
    with True show ?thesis by simp
  next
    case False
    then show ?thesis by simp
  qed
  have n6: "?b6 ! i = ?b5 ! i"
    using g i o2 l5 by (subst nth_patch) (auto simp add: geom_def le_max_iff_disj)
  have n7: "?b7 ! i = ?b6 ! i"
    using g i o3 l6 by (subst nth_patch) (auto simp add: geom_def le_max_iff_disj)
  have "patched p l data payload = ?b7"
    by (simp add: patched_def Let_def)
  then show ?thesis
    using n1 n2 n3 n4 n5 n6 n7 by simp
qed

lemma patch_patch_adjacent:
  assumes "pos + length xs + length ys \<le> length data"
  shows "patch (patch data pos xs) (pos + length xs) ys = patch data pos (xs @ ys)"
  using assms by (simp add: patch_def ac_simps)

lemma slice_header_patches:
  assumes off: "opt_offset p = coff_offset p + 20" "security_dd_offset p = opt_offset p + 144"
    and len: "opt_offset p + 152 \<le> length d" and a: "opt_offset p + 152 \<le> a"
  shows "slice (header_patches p l d) a b = slice d a b"
    and "length (header_patches p l d) = length d"
proof -
  let ?b4 = "patch d (coff_offset p + 2) (le_encode 2 (num_sections p + 1))"
  let ?b5 = "if size_of_headers p < new_size_of_headers l
             then patch ?b4 (opt_offset p + 60) (le_encode 4 (new_size_of_headers l)) else ?b4"
  let ?b6 = "patch ?b5 (opt_offset p + 56)
               (le_encode 4 (align_up (new_va l + payload_len l) (section_alignment p)))"
  have hp: "header_patches p l d = patch ?b6 (opt_offset p + 144) (replicate 8 0)"
    by (simp add: header_patches_def Let_def off)
  have l4: "length ?b4 = length d" using len off by simp
  have l5: "length ?b5 = length d" using len l4 by simp
  have l6: "length ?b6 = length d" using len l5 by simp
  have s4: "slice ?b4 a b = slice d a b"
    using len a off by (intro slice_patch_after) simp_all
  have s5: "slice ?b5 a b = slice ?b4 a b"
  proof (cases "size_of_headers p < new_size_of_headers l")
    case True
    have "slice (patch ?b4 (opt_offset p + 60) (le_encode 4 (new_size_of_headers l))) a b
          = slice ?b4 a b"
      using len a l4 by (intro slice_patch_after) simp_all
    with True show ?thesis by simp
  next
    case False
    then show ?thesis by simp
  qed
  have s6: "slice ?b6 a b = slice ?b5 a b"
    using len a l5 by (intro slice_patch_after) simp_all
  have s7: "slice (header_patches p l d) a b = slice ?b6 a b"
    unfolding hp using len a l6 by (intro slice_patch_after) simp_all
  show "slice (header_patches p l d) a b = slice d a b"
    using s4 s5 s6 s7 by simp
  show "length (header_patches p l d) = length d"
    unfolding hp using len l6 by simp
qed

lemma patched_header_patches:
  assumes "geom p l (length payload)"
  shows "patched p l data payload
         = header_patches p l
             (patch (patch (grown l data) (new_sh_off l) (sh_bytes l)) (new_raw l)
                (le_encode 8 (length payload) @ payload))"
proof -
  let ?b1 = "patch (grown l data) (new_sh_off l) (sh_bytes l)"
  have "length ?b1 = max (length data) (new_raw l + raw_size_new l)"
    using assms by (simp add: geom_def le_max_iff_disj)
  then have "new_raw l + length (le_encode 8 (length payload)) + length payload \<le> length ?b1"
    using assms by (simp add: geom_def le_max_iff_disj)
  from patch_patch_adjacent [OF this]
  have "patch (patch ?b1 (new_raw l) (le_encode 8 (length payload))) (new_raw l + 8) payload
        = patch ?b1 (new_raw l) (le_encode 8 (length payload) @ payload)"
    by simp
  then show ?thesis
    using assms by (simp add: patched_def header_patches_def Let_def geom_def)
qed

lemma mutated_written:
  assumes g: "geom p l (length payload)"
  shows "length (mutated p l data payload) = max (length data) (new_raw l + raw_size_new l)"
    and "slice (mutated p l data payload) (new_sh_off l) (new_sh_off l + 40) = sh_bytes l"
    and "slice (mutated p l data payload) (new_raw l) (new_raw l + 8 + length payload)
         = le_encode 8 (length payload) @ payload"
proof -
  let ?N = "max (length data) (new_raw l + raw_size_new l)"
  let ?b1 = "patch (grown l data) (new_sh_off l) (sh_bytes l)"
  let ?b3 = "patch ?b1 (new_raw l) (le_encode 8 (length payload) @ payload)"
  let ?hp = "header_patches p l ?b3"
  have off: "opt_offset p = coff_offset p + 20" "security_dd_offset p = opt_offset p + 144"
    using g by (simp_all add: geom_def)
  have l1: "length ?b1 = ?N" using g by (simp add: geom_def le_max_iff_disj)
  have l3: "length ?b3 = ?N" using g l1 by (simp add: geom_def le_max_iff_disj)
  have in3: "opt_offset p + 152 \<le> length ?b3"
    using g l3 by (simp add: geom_def le_max_iff_disj)
  have lh: "length ?hp = ?N"
    using slice_header_patches(2) [OF off in3 order_refl] l3 by simp
  have m: "mutated p l data payload
           = patch ?hp (opt_offset p + 64)
               (le_encode 4 (checksum_of (patch ?hp (opt_offset p + 64) (le_encode 4 0))))"
    by (simp add: mutated_def Let_def patched_header_patches [OF g])
  show "length (mutated p l data payload) = ?N"
    unfolding m using in3 lh l3 by simp
  have after: "slice (mutated p l data payload) a b = slice ?b3 a b"
    if "opt_offset p + 152 \<le> a" for a b
  proof -
    have "slice (mutated p l data payload) a b = slice ?hp a b"
      unfolding m using that in3 lh l3 by (intro slice_patch_after) simp_all
    then show ?thesis
      using slice_header_patches(1) [OF off in3 that] by simp
  qed
  have "slice ?b3 (new_sh_off l) (new_sh_off l + 40) = slice ?b1 (new_sh_off l) (new_sh_off l + 40)"
    using g l1 by (intro slice_patch_before) (simp_all add: geom_def le_max_iff_disj)
  also have "\<dots> = sh_bytes l"
    using g by (intro slice_patch_at) (simp_all add: geom_def le_max_iff_disj)
  finally show "slice (mutated p l data payload) (new_sh_off l) (new_sh_off l + 40) = sh_bytes l"
    using g after [of "new_sh_off l" "new_sh_off l + 40"] by (simp add: geom_def)
  have "slice ?b3 (new_raw l) (new_raw l + 8 + length payload)
        = le_encode 8 (length payload) @ payload"
    using g l1 by (intro slice_patch_at) (simp_all add: geom_def le_max_iff_disj)
  then show "slice (mutated p l data payload) (new_raw l) (new_raw l + 8 + length payload)
             = le_encode 8 (length payload) @ payload"
    using g after [of "new_raw l" "new_raw l + 8 + length payload"] by (simp add: geom_def)
qed

lemma nth_mutated_outside:
  assumes g: "geom p l (length payload)"
    and i: "i < max (length data) (new_raw l + raw_size_new l)"
    and o1: "i < coff_offset p + 2 \<or> coff_offset p + 4 \<le> i"
    and o2: "i < opt_offset p + 56 \<or> opt_offset p + 68 \<le> i"
    and o3: "i < opt_offset p + 144 \<or> opt_offset p + 152 \<le> i"
    and o4: "i < new_sh_off l \<or> new_sh_off l + 40 \<le> i"
    and o5: "i < new_raw l \<or> new_raw l + payload_len l \<le> i"
  shows "mutated p l data payload ! i = grown l data ! i"
proof -
  have lp: "length (patched p l data payload) = max (length data) (new_raw l + raw_size_new l)"
    using g by (rule length_patched)
  have "opt_offset p + 64 + 4 \<le> length (patched p l data payload)"
    using g lp by (simp add: geom_def le_max_iff_disj)
  then have "mutated p l data payload ! i = patched p l data payload ! i"
    unfolding mutated_def Let_def using i o2 lp
    by (subst nth_patch) auto
  moreover have "patched p l data payload ! i = grown l data ! i"
    using g i o1 _ o3 o4 o5 by (rule nth_patched_outside) (use o2 in auto)
  ultimately show ?thesis by simp
qed

lemma run_mutated:
  assumes parse: "parse_image data = Inr p"
    and wf: "well_formed p"
    and run: "add_bun_section data payload = Inr out"
    and l: "l = layout_planner p (length data) (length payload)"
  shows "geom p l (length payload)" and "value_bounds p l"
    and "out = mutated p l data payload"
proof -
  note rf = run_fields [OF parse run l]
  show g: "geom p l (length payload)"
    using parse wf rf(1) l rf(2) by (rule geom_wf)
  show vb: "value_bounds p l" by (rule rf(3))
  have "recompute_checksum (patched p l data payload) (opt_offset p + 64) = Inr out"
    using buffer_mutator_patched [OF g vb, of data] rf(4) by simp
  then show "out = mutated p l data payload"
    by (simp add: recompute_checksum_Inr_iff mutated_def Let_def)
qed

lemma slice_mutated_unchanged:
  assumes g: "geom p l (length payload)"
    and b: "b \<le> length data" "b \<le> new_raw l"
    and o1: "b \<le> coff_offset p + 2 \<or> coff_offset p + 4 \<le> a"
    and o2: "b \<le> opt_offset p + 56 \<or> opt_offset p + 68 \<le> a"
    and o3: "b \<le> opt_offset p + 144 \<or> opt_offset p + 152 \<le> a"
    and o4: "b \<le> new_sh_off l \<or> new_sh_off l + 40 \<le> a"
  shows "slice (mutated p l data payload) a b = slice data a b"
proof (rule slice_nth_eq)
  show "b \<le> length (mutated p l data payload)"
    using b(1) by (simp add: mutated_written(1) [OF g] le_max_iff_disj)
  show "b \<le> length data" by (rule b(1))
  show "mutated p l data payload ! i = data ! i" if "a \<le> i" "i < b" for i
  proof -
    have "mutated p l data payload ! i = grown l data ! i"
      using g that b o1 o2 o3 o4
      by (intro nth_mutated_outside) (auto simp add: less_max_iff_disj)
    also have "\<dots> = data ! i"
      using that b by (subst nth_grown) (auto simp add: less_max_iff_disj)
    finally show ?thesis .
  qed
qed

lemma slice_slice:
  assumes "b \<le> n"
  shows "slice d (pos + a) (pos + b) = slice (slice d pos (pos + n)) a b"
  using assms by (simp add: slice_def min_def drop_take add.commute)

lemma sh_bytes_slices:
  "slice (sh_bytes l) 0 8 = bun_name"
  "slice (sh_bytes l) 8 12 = le_encode 4 (payload_len l)"
  "slice (sh_bytes l) 12 16 = le_encode 4 (new_va l)"
  "slice (sh_bytes l) 16 20 = le_encode 4 (raw_size_new l)"
  "slice (sh_bytes l) 20 24 = le_encode 4 (new_raw l)"
  "slice (sh_bytes l) 36 40 = le_encode 4 0x40000040"
  by (simp_all add: sh_bytes_def slice_def)

lemma read_new_section:
  assumes "slice d pos (pos + 40) = sh_bytes l" and "pos + 40 \<le> length d"
    and "value_bounds p l"
  shows "read_section d pos
         = Inr \<lparr>name = bun_name, virtual_size = payload_len l, virtual_addr = new_va l,
                raw_size = raw_size_new l, raw_ptr = new_raw l, chars = 0x40000040,
                off = pos\<rparr>"
proof -
  have sl: "slice d (pos + a) (pos + b) = slice (sh_bytes l) a b" if "b \<le> 40" for a b
    using slice_slice [OF that, of d pos a] assms(1) by simp
  have s0: "slice d pos (pos + 8) = bun_name"
    using sl [of 8 0] by (simp add: sh_bytes_slices)
  have d: "le_decode (le_encode 4 (payload_len l)) = payload_len l"
    "le_decode (le_encode 4 (new_va l)) = new_va l"
    "le_decode (le_encode 4 (raw_size_new l)) = raw_size_new l"
    "le_decode (le_encode 4 (new_raw l)) = new_raw l"
    "le_decode (le_encode 4 0x40000040) = 0x40000040"
    using assms(3) by (simp_all add: value_bounds_def le_decode_encode)
  show ?thesis
    unfolding read_section_Inr_iff
    using assms(2) s0 sl [of 12 8] sl [of 16 12] sl [of 20 16] sl [of 24 20] sl [of 40 36]
    by (simp add: sh_bytes_slices d)
qed

lemma signed_view_wf_facts:
  "num_sections signed_view < 96"
  "new_size_of_headers (layout_planner signed_view 1040 2)
    \<le> first_raw (layout_planner signed_view 1040 2)"
  by (simp_all add: signed_view_fields layout_signed)

lemma signed_view_table: "section_headers_offset signed_view = 328"
  by (simp add: signed_view_def)

lemma le_encode_8: "le_encode 8 v = [word_of_nat (v mod 256), word_of_nat (v div 256 mod 256),
     word_of_nat (v div 256 div 256 mod 256), word_of_nat (v div 256 div 256 div 256 mod 256),
     word_of_nat (v div 256 div 256 div 256 div 256 mod 256),
     word_of_nat (v div 256 div 256 div 256 div 256 div 256 mod 256),
     word_of_nat (v div 256 div 256 div 256 div 256 div 256 div 256 mod 256),
     word_of_nat (v div 256 div 256 div 256 div 256 div 256 div 256 div 256 mod 256)]"
proof -
  have "(8::nat) = Suc (Suc (Suc (Suc (Suc (Suc (Suc (Suc 0)))))))" by simp
  then show ?thesis by (simp only: le_encode.simps)
qed







lemma parse_sections_cong:
  assumes "slice d' pos (pos + 40 * k) = slice d pos (pos + 40 * k)"
    and "pos + 40 * k \<le> length d" and "pos + 40 * k \<le> length d'"
  shows "parse_sections d' pos k = parse_sections d pos k"
  using assms
proof (induction k arbitrary: pos)
  case 0
  then show ?case by simp
next
  case (Suc k)
  have sub: "slice x (pos + a) (pos + b) = slice (slice x pos (pos + 40 * Suc k)) a b"
    if "b \<le> 40 * Suc k" for x :: bytes and a b
    using that by (rule slice_slice)
  have h: "slice d' pos (pos + 40) = slice d pos (pos + 40)"
    using sub [of 40 d' 0] sub [of 40 d 0] Suc.prems(1) by simp
  have t: "slice d' (pos + 40) (pos + 40 + 40 * k) = slice d (pos + 40) (pos + 40 + 40 * k)"
    using sub [of "40 + 40 * k" d' 40] sub [of "40 + 40 * k" d 40] Suc.prems(1)
    by (simp add: add.assoc)
  have r: "read_section d' pos = read_section d pos"
    using h Suc.prems(2,3) by (intro read_section_cong) simp_all
  have "parse_sections d' (pos + 40) k = parse_sections d (pos + 40) k"
    using t Suc.prems(2,3) by (intro Suc.IH) simp_all
  then show ?case
    using r by (simp add: SECTION_HEADER_SIZE_def cong: if_cong)
qed

lemma parse_sections_then_bun:
  assumes "parse_sections d pos k = Inr ss"
    and "read_section d (pos + 40 * k) = Inr s" and "name s = bun_name"
  shows "parse_sections d pos (Suc k) = Inl DuplicateSection"
  using assms
proof (induction k arbitrary: pos ss)
  case 0
  then show ?case by simp
next
  case (Suc k)
  from Suc.prems(1) obtain s0 ss' where s0: "read_section d pos = Inr s0"
    and nb: "name s0 \<noteq> bun_name"
    and rest: "parse_sections d (pos + 40) k = Inr ss'"
    by (auto simp add: and_then_Inr_iff SECTION_HEADER_SIZE_def split: if_splits)
  have "read_section d (pos + 40 + 40 * k) = Inr s"
    using Suc.prems(2) by (simp add: add.assoc)
  from Suc.IH [OF rest this Suc.prems(3)]
  have "parse_sections d (pos + 40) (Suc k) = Inl DuplicateSection" .
  then show ?case
    using s0 nb by (simp add: SECTION_HEADER_SIZE_def)
qed

lemma unpack_from_cong:
  assumes "slice d' pos (pos + n) = slice d pos (pos + n)"
    and "pos + n \<le> length d" and "length d \<le> length d'"
  shows "unpack_from n d' pos = unpack_from n d pos"
  using assms by (simp add: unpack_from_slice)

lemma parse_image_sections_error:
  assumes "read_u32 d 0x3C = Inr e" and "slice d e (e + 4) = pe_sig"
    and "read_u16 d (e + 4) = Inr m" and "read_u16 d (e + 4 + 2) = Inr n"
    and "read_u16 d (e + 4 + 16) = Inr soo" and "read_u16 d (e + 4 + 20) = Inr 0x20B"
    and "read_u32 d (e + 4 + 20 + 36) = Inr fa" and "read_u32 d (e + 4 + 20 + 32) = Inr sa"
    and "read_u32 d (e + 4 + 20 + 56) = Inr soi" and "read_u32 d (e + 4 + 20 + 60) = Inr soh"
    and "parse_sections d (e + 4 + 20 + soo) n = Inl err"
  shows "parse_image d = Inl err"
  using assms unfolding parse_image_def Let_def by simp

lemma parse_output_duplicate:
  assumes parse: "parse_image data = Inr p" and wf: "well_formed p"
    and run: "add_bun_section data payload = Inr out"
  shows "parse_image out = Inl DuplicateSection"
proof -
  define l where "l = layout_planner p (length data) (length payload)"
  note rm = run_mutated [OF parse wf run l_def]
  note rf = run_fields [OF parse run l_def]
  note pd = parse_imageD [OF parse]
  note mw = mutated_written [OF rm(1), of data]
  let ?e = "e_lfanew p"
  have e: "64 \<le> ?e" and soo: "152 \<le> size_of_optional p"
    using wf by (simp_all add: well_formed_def)
  have g: "coff_offset p = ?e + 4" "opt_offset p = ?e + 24"
    "opt_offset p + 152 \<le> new_sh_off l" "new_sh_off l + 40 \<le> new_raw l"
    using rm(1) by (simp_all add: geom_def)
  have nso: "new_sh_off l = ?e + 24 + size_of_optional p + 40 * num_sections p"
    using pd(15) by (simp add: l_def layout_planner_fields)
  have len: "length data \<le> length out" by (rule rf(5))
  have keep: "unpack_from n out pos = unpack_from n data pos"
    if "pos + n \<le> length data"
      and "pos + n \<le> ?e + 6 \<or> (?e + 8 \<le> pos \<and> pos + n \<le> ?e + 80)" for n pos
  proof (rule unpack_from_cong)
    show "slice out pos (pos + n) = slice data pos (pos + n)"
      unfolding rm(3) using rm(1) that g
      by (intro slice_mutated_unchanged) auto
    show "pos + n \<le> length data" by (rule that(1))
    show "length data \<le> length out" by (rule len)
  qed
  have in_range: "pos + n \<le> length data" if "unpack_from n data pos = Inr v" for n pos v
    using that by (simp add: unpack_from_Inr_iff)
  have r1: "read_u32 out 60 = Inr ?e"
    using pd(1) keep [of 60 4] in_range [of 4 60] e by (simp add: read_u32_def)
  have r2: "slice out ?e (?e + 4) = pe_sig"
  proof -
    have "?e + 6 \<le> length data"
      using pd(4) in_range [of 2 "?e + 4"] by (simp add: read_u16_def)
    then have "slice out ?e (?e + 4) = slice data ?e (?e + 4)"
      unfolding rm(3) using rm(1) g by (intro slice_mutated_unchanged) auto
    then show ?thesis using pd(2) by simp
  qed
  have r3: "read_u16 out (?e + 4) = Inr (machine p)"
    using pd(4) keep [of "?e + 4" 2] in_range [of 2 "?e + 4"] by (simp add: read_u16_def)
  have r4: "read_u16 out (?e + 6) = Inr (num_sections p + 1)"
  proof -
    have "coff_offset p + 2 = ?e + 6" using g(1) by simp
    with rf(6) show ?thesis by (simp only:)
  qed
  have r5: "read_u16 out (?e + 20) = Inr (size_of_optional p)"
    using pd(6) keep [of "?e + 20" 2] in_range [of 2 "?e + 20"] by (simp add: read_u16_def)
  have r6: "read_u16 out (?e + 24) = Inr 0x20B"
    using pd(8) keep [of "?e + 24" 2] in_range [of 2 "?e + 24"] by (simp add: read_u16_def)
  have r7: "read_u32 out (?e + 60) = Inr (file_alignment p)"
    using pd(9) keep [of "?e + 60" 4] in_range [of 4 "?e + 60"] by (simp add: read_u32_def)
  have r8: "read_u32 out (?e + 56) = Inr (section_alignment p)"
    using pd(10) keep [of "?e + 56" 4] in_range [of 4 "?e + 56"] by (simp add: read_u32_def)
  have big: "?e + 88 \<le> length out"
    using pd(12) in_range [of 4 "?e + 84"] len by (simp add: read_u32_def)
  have r9: "read_u32 out (?e + 80) = Inr (le_decode (slice out (?e + 80) (?e + 84)))"
    using big by (simp add: read_u32_def unpack_from_slice add.assoc)
  have r10: "read_u32 out (?e + 84) = Inr (le_decode (slice out (?e + 84) (?e + 88)))"
    using big by (simp add: read_u32_def unpack_from_slice add.assoc)
  let ?sho = "?e + 24 + size_of_optional p"
  have ps: "parse_sections data ?sho (num_sections p) = Inr (sections p)"
    using pd(15,16) by simp
  have "sections p \<noteq> []"
    using wf by (auto simp add: well_formed_def)
  then have n0: "0 < num_sections p"
    using parse_sections_length [OF ps] by (cases "sections p") auto
  have tab: "?sho + 40 * num_sections p \<le> length data"
    using ps n0 by (rule parse_sections_in_range)
  have "parse_sections out ?sho (num_sections p) = parse_sections data ?sho (num_sections p)"
  proof (rule parse_sections_cong)
    show "slice out ?sho (?sho + 40 * num_sections p)
          = slice data ?sho (?sho + 40 * num_sections p)"
      unfolding rm(3) using rm(1) g tab soo nso
      by (intro slice_mutated_unchanged) auto
    show "?sho + 40 * num_sections p \<le> length data" by (rule tab)
    show "?sho + 40 * num_sections p \<le> length out" using tab len by linarith
  qed
  with ps have ps': "parse_sections out ?sho (num_sections p) = Inr (sections p)" by simp
  have "new_sh_off l + 40 \<le> length out"
    using g by (simp add: rm(3) mw(1) le_max_iff_disj)
  from read_new_section [OF _ this rm(2)] mw(2)
  have "read_section out (?sho + 40 * num_sections p)
        = Inr \<lparr>name = bun_name, virtual_size = payload_len l, virtual_addr = new_va l,
               raw_size = raw_size_new l, raw_ptr = new_raw l, chars = 0x40000040,
               off = new_sh_off l\<rparr>"
    by (simp add: rm(3) nso)
  from parse_sections_then_bun [OF ps' this]
  have dup: "parse_sections out ?sho (Suc (num_sections p)) = Inl DuplicateSection"
    by simp
  have eqs: "?e + 4 + 2 = ?e + 6" "?e + 4 + 16 = ?e + 20" "?e + 4 + 20 = ?e + 24"
    "?e + 24 + 36 = ?e + 60" "?e + 24 + 32 = ?e + 56" "?e + 24 + 56 = ?e + 80"
    "?e + 24 + 60 = ?e + 84" "num_sections p + 1 = Suc (num_sections p)"
    by simp_all
  show ?thesis
  proof (rule parse_image_sections_error)
    show "read_u32 out 0x3C = Inr ?e" by (rule r1)
    show "slice out ?e (?e + 4) = pe_sig" by (rule r2)
    show "read_u16 out (?e + 4) = Inr (machine p)" by (rule r3)
    show "read_u16 out (?e + 4 + 2) = Inr (Suc (num_sections p))" using r4 by (simp only: eqs)
    show "read_u16 out (?e + 4 + 16) = Inr (size_of_optional p)" using r5 by (simp only: eqs)
    show "read_u16 out (?e + 4 + 20) = Inr 0x20B" using r6 by (simp only: eqs)
    show "read_u32 out (?e + 4 + 20 + 36) = Inr (file_alignment p)"
      using r7 by (simp only: eqs)
    show "read_u32 out (?e + 4 + 20 + 32) = Inr (section_alignment p)"
      using r8 by (simp only: eqs)
    show "read_u32 out (?e + 4 + 20 + 56) = Inr (le_decode (slice out (?e + 80) (?e + 84)))"
      using r9 by (simp only: eqs)
    show "read_u32 out (?e + 4 + 20 + 60) = Inr (le_decode (slice out (?e + 84) (?e + 88)))"
      using r10 by (simp only: eqs)
    show "parse_sections out (?e + 4 + 20 + size_of_optional p) (Suc (num_sections p))
          = Inl DuplicateSection"
      using dup by (simp only: eqs)
  qed
qed

lemma upt_4: "[0..<4] = [0, 1, 2, 3]"
  by (simp add: upt_rec)

lemma parse_full_image: "parse_image full_image = Inr full_view"
proof -
  let ?ss = "map (\<lambda>i. (numbered_section i)\<lparr>raw_ptr := 0x200 + i * 0x200,
                                           virtual_addr := 0x1000 + i * 0x1000\<rparr>) [0..<4]"
  have "\<forall>s\<in>set ?ss. encodable s"
    by (simp add: upt_4 encodable_def numbered_section_def bun_name_def)
  moreover have "length ?ss = 4" by simp
  ultimately show ?thesis
    unfolding full_image_def full_view_def
    using parse_synth_image [of "0x200" "0x1000" "0x5000" "0x200" ?ss 0 0]
    by simp
qed

lemma full_view_fields:
  "num_sections full_view = 4" "file_alignment full_view = 512"
  "section_headers_offset full_view = 328"
  by (simp_all add: full_view_def)

lemma well_formed_full_view: "well_formed full_view"
  by (simp add: well_formed_def full_view_def is_pow2_512 is_pow2_4096 upt_4
      numbered_section_def)

lemma layout_full:
  "first_raw (layout_planner full_view 2560 0) = 512"
  "new_size_of_headers (layout_planner full_view 2560 0) = 1024"
  by (simp_all add: layout_planner_fields full_view_def upt_4 numbered_section_def
      min_default_def align_up_512)

lemma length_full_image: "length full_image = 2560"
  by (simp add: full_image_def synth_image_def upt_4 encode_section_def numbered_section_def)


lemma many_sections_capacity:
  assumes "0 < n" and "n < 96"
  shows "new_size_of_headers (layout_planner (many_sections_view n) dl pl)
         \<le> first_raw (layout_planner (many_sections_view n) dl pl)"
proof -
  have "368 + n * 40 \<le> 4608" using assms(2) by simp
  then have "(368 + n * 40 + 511) div 512 \<le> 9" by simp
  then have "align_up (368 + n * 40) 512 \<le> 4608"
    by (simp add: align_up_512)
  then show ?thesis
    by (simp add: layout_many_sections [OF assms(1)])
qed

lemma many_sections_fits:
  assumes "0 < n" and "n < 96"
  shows "fits (many_sections_view n) (layout_planner (many_sections_view n) (4608 + 512 * n) 0)
          (4608 + 512 * n)"
  using assms(2)
  by (simp add: fits_def layout_many_sections [OF assms(1)] many_sections_view_fields
      align_up_4096 align_up_512)

section \<open>The claims\<close>

subsection \<open>C3: what the Layout Planner computes\<close>



subsection \<open>C9: the security directory entry is zeroed\<close>

text \<open>
  Claim C9. For every input on which \<open>add_bun_section\<close> succeeds and whose security
  directory entry (the 8 bytes at optional header + 112 + 4 * 8) lies inside the input
  buffer, the entry in the output is exactly zero, address and size alike, whatever it
  was in the input.
\<close>


theorem security_directory_zeroed:
  assumes "parse_image data = Inr p"
    and "add_bun_section data payload = Inr out"
    and "security_dd_offset p + 8 \<le> length data"
  shows "slice out (security_dd_offset p) (security_dd_offset p + 8) = replicate 8 0
       \<and> read_u32 out (security_dd_offset p) = Inr 0
       \<and> read_u32 out (security_dd_offset p + 4) = Inr 0"
proof -
  have z: "slice out (security_dd_offset p) (security_dd_offset p + 8) = replicate 8 0"
    using assms run_fields(8) by blast
  have len: "security_dd_offset p + 8 \<le> length out"
    using assms run_fields(5) [OF assms(1,2) refl] by linarith
  have lo: "slice out (security_dd_offset p) (security_dd_offset p + 4) = replicate 4 0"
  proof -
    have "slice out (security_dd_offset p) (security_dd_offset p + 4)
          = take 4 (slice out (security_dd_offset p) (security_dd_offset p + 8))"
      by (simp add: slice_def)
    then show ?thesis by (simp add: z)
  qed
  have hi: "slice out (security_dd_offset p + 4) (security_dd_offset p + 8) = replicate 4 0"
  proof -
    have "slice out (security_dd_offset p + 4) (security_dd_offset p + 8)
          = drop 4 (slice out (security_dd_offset p) (security_dd_offset p + 8))"
      by (simp add: slice_def drop_take add.commute)
    then show ?thesis by (simp add: z)
  qed
  note enc = le_encode_4_zero
  have "read_u32 out (security_dd_offset p) = Inr 0"
    unfolding read_u32_def using lo len
    by (intro unpack_from_eqI [where b = "security_dd_offset p + 4"]) (simp_all add: enc)
  moreover have "read_u32 out (security_dd_offset p + 4) = Inr 0"
    unfolding read_u32_def using hi len
    by (intro unpack_from_eqI [where b = "security_dd_offset p + 8"]) (simp_all add: enc)
  ultimately show ?thesis using z by simp
qed

theorem security_directory_zeroed_witness:
  "parse_image signed_image = Inr signed_view
   \<and> read_u32 signed_image (security_dd_offset signed_view) = Inr 0x400
   \<and> (\<exists>out. add_bun_section signed_image [1, 2] = Inr out
         \<and> slice out (security_dd_offset signed_view) (security_dd_offset signed_view + 8)
             = replicate 8 0
         \<and> read_u32 out (security_dd_offset signed_view) = Inr 0)"
proof -
  have r: "read_u32 signed_image (security_dd_offset signed_view) = Inr 0x400"
  proof -
    have "slice signed_image 232 236 = le_encode 4 0x400"
    proof -
      have "slice signed_image 232 236
            = take 4 (slice (synth_header 0x200 0x1000 0x2000 0x200 0x400 0x10 1) 232 240)"
        by (simp add: signed_image_def synth_image_def slice_def)
      then show ?thesis by (simp add: synth_header_slices)
    qed
    then show ?thesis
      unfolding read_u32_def
      by (intro unpack_from_eqI [where b = 236])
         (simp_all add: signed_view_fields length_signed_image)
  qed
  have len: "security_dd_offset signed_view + 8 \<le> length signed_image"
    by (simp add: signed_view_fields length_signed_image)
  show ?thesis
    using security_directory_zeroed [OF parse_signed_image signed_run len]
      parse_signed_image signed_run r
    by simp
qed

subsection \<open>C6: the section count after an insertion\<close>

text \<open>
  Claim C6, as stated: for every input on which \<open>add_bun_section\<close> succeeds, the section
  count of the output never reaches or exceeds 96. The code accepts 95 sections
  (\<^verbatim>\<open>assert num_sections < 96\<close>) and writes 96: the image with 95 sections is such an input.
\<close>

theorem section_count_reaches_96:
  "read_u16 (many_sections_image 95) 70 = Inr 95
   \<and> output_u16 (many_sections_image 95) [] 70 = Inr 96"
proof -
  have p: "parse_image (many_sections_image 95) = Inr (many_sections_view 95)"
    by (intro parse_many_sections_image) simp
  have r: "add_bun_section (many_sections_image 95) []
           = Inr (mutated (many_sections_view 95)
                    (layout_planner (many_sections_view 95) (4608 + 512 * 95) 0)
                    (many_sections_image 95) [])"
    by (intro many_sections_run) simp_all
  have "read_u16 (many_sections_image 95) 70 = Inr 95"
    using parse_imageD(5) [OF p] by (simp add: many_sections_view_fields)
  moreover have "output_u16 (many_sections_image 95) [] 70 = Inr 96"
    using run_fields(6) [OF p r refl]
    by (simp add: output_u16_def r many_sections_view_fields)
  ultimately show ?thesis by simp
qed

text \<open>
  Claim C6, amended: for every input that parses and on which \<open>add_bun_section\<close> succeeds,
  the section count of the output is the count of the input plus one and never exceeds
  96; it can be 96.
\<close>

theorem section_count_at_most_96:
  assumes "parse_image data = Inr p" and "add_bun_section data payload = Inr out"
  shows "read_u16 out (coff_offset p + 2) = Inr (num_sections p + 1)
       \<and> num_sections p + 1 \<le> 96"
  using run_fields(1,6) [OF assms refl] by simp

theorem section_count_at_most_96_witness:
  "parse_image signed_image = Inr signed_view
   \<and> (\<exists>out. add_bun_section signed_image [1, 2] = Inr out
         \<and> read_u16 out (coff_offset signed_view + 2) = Inr 2)"
  using section_count_at_most_96 [OF parse_signed_image signed_run]
    parse_signed_image signed_run
  by (simp add: signed_view_fields)

subsection \<open>C4: the size of image after an insertion\<close>

text \<open>
  Claim C4, as stated: for every well-formed 64-bit input image and every payload, the
  size of image of the output is greater than or equal to that of the input. The code
  writes the aligned end of the new section whatever the field held: an image whose size
  of image (65536) covers more than the extent of its sections (8192) comes out with
  12288.
\<close>

theorem size_of_image_shrinks:
  "parse_image oversized_image = Inr oversized_view \<and> well_formed oversized_view
   \<and> read_u32 oversized_image 144 = Inr 65536
   \<and> output_u32 oversized_image [1, 2] 144 = Inr 12288"
proof -
  have "read_u32 oversized_image 144 = Inr 65536"
    using parse_imageD(11) [OF parse_oversized_image]
    by (simp add: oversized_view_def signed_view_def)
  moreover have "output_u32 oversized_image [1, 2] 144 = Inr 12288"
    using run_fields(7) [OF parse_oversized_image oversized_run layout_oversized_lengths]
    by (simp add: output_u32_def oversized_run oversized_view_fields
        layout_oversized align_up_4096)
  ultimately show ?thesis
    using parse_oversized_image well_formed_oversized_view by simp
qed

text \<open>
  Claim C4, amended: for every input image that parses, whose section alignment is a power
  of two, and every payload on which \<open>add_bun_section\<close> succeeds, the size of image of
  the output is the new section's virtual address plus its prefixed-payload length,
  rounded up to the section alignment: a multiple of the section alignment, and greater
  than or equal to the size of image of the input whenever that does not exceed the end
  of the new section (as when it is the aligned extent of the existing sections).
\<close>

theorem size_of_image_aligned_end:
  assumes "parse_image data = Inr p" and "add_bun_section data payload = Inr out"
    and "is_pow2 (section_alignment p)"
    and "l = layout_planner p (length data) (length payload)"
  shows "read_u32 out (opt_offset p + 56)
           = Inr (round_up (new_va l + payload_len l) (section_alignment p))
       \<and> section_alignment p dvd round_up (new_va l + payload_len l) (section_alignment p)
       \<and> (size_of_image p \<le> new_va l + payload_len l \<longrightarrow>
            size_of_image p \<le> round_up (new_va l + payload_len l) (section_alignment p))"
proof -
  have pos: "0 < section_alignment p"
    using assms(3) by (auto simp add: is_pow2_def)
  have "read_u32 out (opt_offset p + 56)
        = Inr (round_up (new_va l + payload_len l) (section_alignment p))"
    using run_fields(7) [OF assms(1,2,4)] round_up_align_up [OF assms(3)] by simp
  moreover have "new_va l + payload_len l
                 \<le> round_up (new_va l + payload_len l) (section_alignment p)"
    using pos by (rule round_up_next_multiple(2))
  ultimately show ?thesis
    using round_up_next_multiple(1) [OF pos] by auto
qed

theorem size_of_image_aligned_end_witness:
  "parse_image signed_image = Inr signed_view \<and> is_pow2 (section_alignment signed_view)
   \<and> read_u32 signed_image 144 = Inr 8192
   \<and> (\<exists>out. add_bun_section signed_image [1, 2] = Inr out
         \<and> read_u32 out 144 = Inr 12288)"
proof -
  have a: "is_pow2 (section_alignment signed_view)"
    by (simp add: signed_view_fields is_pow2_4096)
  note l = layout_signed_lengths
  have "read_u32 signed_image 144 = Inr 8192"
    using parse_imageD(11) [OF parse_signed_image] by (simp add: signed_view_def)
  then show ?thesis
    using size_of_image_aligned_end [OF parse_signed_image signed_run a l]
      parse_signed_image signed_run a
    by (simp add: signed_view_fields layout_signed round_up_def)
qed

subsection \<open>C2: the checksum\<close>

text \<open>
  Claim C2. For every buffer that holds the four bytes of the checksum field and for
  which the value of the specification's algorithm (\<open>spec_checksum\<close>) fits the field,
  \<open>recompute_checksum\<close> returns the buffer with exactly that value in the field and
  every other byte unchanged; so the algorithm, run over the output (which zeroes the
  field first), reproduces the stored field.
\<close>

theorem recompute_checksum_spec:
  assumes "pos + 4 \<le> length data" and "spec_checksum data pos < 2 ^ 32"
  shows "\<exists>out. recompute_checksum data pos = Inr out
           \<and> read_u32 out pos = Inr (spec_checksum data pos)
           \<and> read_u32 out pos = Inr (spec_checksum out pos)
           \<and> length out = length data
           \<and> (\<forall>i<length data. i < pos \<or> pos + 4 \<le> i \<longrightarrow> out ! i = data ! i)"
proof -
  let ?v = "spec_checksum data pos"
  let ?out = "patch data pos (le_encode 4 ?v)"
  have run: "recompute_checksum data pos = Inr ?out"
    using assms
    by (simp add: recompute_checksum_Inr_iff patch_zero_field checksum_of_zero_field)
  have len: "length ?out = length data"
    using assms(1) by simp
  have "slice ?out pos (pos + 4) = le_encode 4 ?v"
    using assms(1) by (intro slice_patch_at) simp_all
  then have rd: "read_u32 ?out pos = Inr ?v"
    unfolding read_u32_def using assms len
    by (intro unpack_from_eqI [where b = "pos + 4"]) simp_all
  have same: "spec_checksum ?out pos = ?v"
    using assms(1) zero_field_patch [of pos data "le_encode 4 ?v"]
    by (simp add: spec_checksum_def)
  have other: "?out ! i = data ! i" if "i < length data" "i < pos \<or> pos + 4 \<le> i" for i
    using that assms(1) by (auto simp add: nth_patch)
  show ?thesis
    using run rd same len other by auto
qed

theorem recompute_checksum_spec_witness:
  "(2::nat) + 4 \<le> length [1, 2, 0xDE, 0xAD, 0xBE, 0xEF, 3 :: byte]
   \<and> spec_checksum [1, 2, 0xDE, 0xAD, 0xBE, 0xEF, 3] 2 = 523
   \<and> (\<exists>out. recompute_checksum [1, 2, 0xDE, 0xAD, 0xBE, 0xEF, 3] 2 = Inr out
         \<and> read_u32 out 2 = Inr 523 \<and> read_u32 out 2 = Inr (spec_checksum out 2))"
proof -
  have v: "spec_checksum [1, 2, 0xDE, 0xAD, 0xBE, 0xEF, 3 :: byte] 2 = 523"
    by (simp add: spec_checksum_def zero_field_def replicate_4 fold_carry32_def fold16_def
        and_32bit and_65535 drop_bit_eq_div)
  have l: "(2::nat) + 4 \<le> length [1, 2, 0xDE, 0xAD, 0xBE, 0xEF, 3 :: byte]" by simp
  have b: "spec_checksum [1, 2, 0xDE, 0xAD, 0xBE, 0xEF, 3 :: byte] 2 < 2 ^ 32"
    by (simp add: v)
  show ?thesis
    using recompute_checksum_spec [OF l b] l v by auto
qed

subsection \<open>C1: the round trip\<close>

text \<open>
  Claim C1, as stated: for every well-formed 64-bit input image and every payload,
  \<open>add_bun_section\<close> returns a buffer whose COFF section count is the count of the input
  plus one and whose bytes at the new section's raw pointer are the length prefix and the
  payload. The code returns no buffer when the headers have no room for another section
  header: a well-formed image of four sections whose section table ends at byte 488 of
  its 512 bytes of headers ends in \<open>InsufficientHeaderSpace\<close>, even with the empty
  payload.
\<close>

theorem round_trip_no_output:
  "parse_image full_image = Inr full_view \<and> well_formed full_view
   \<and> add_bun_section full_image [] = Inl InsufficientHeaderSpace"
proof -
  have "\<not> new_size_of_headers (layout_planner full_view (length full_image) (length ([] :: bytes)))
          \<le> first_raw (layout_planner full_view (length full_image) (length ([] :: bytes)))"
    by (simp add: length_full_image layout_full)
  then have "add_bun_section full_image [] = Inl InsufficientHeaderSpace"
    by (simp add: add_bun_section_def and_then_def parse_full_image full_view_fields Let_def)
  then show ?thesis
    using parse_full_image well_formed_full_view by simp
qed

text \<open>
  Claim C1, amended: for every well-formed 64-bit input image with fewer than 96 sections
  and room in its headers for one more section header, and every payload with which the
  new image fits its 32-bit fields, \<open>add_bun_section\<close> returns a buffer whose COFF section
  count is the count of the input plus one, whose next slot of the section table holds
  the header of the section \<^verbatim>\<open>.bun\<close> with the planned sizes and addresses, and whose
  bytes at that section's raw pointer are the 8-byte little-endian encoding of the
  payload length followed by the exact payload bytes.
\<close>

theorem round_trip:
  assumes "parse_image data = Inr p" and "well_formed p" and "num_sections p < 96"
    and "l = layout_planner p (length data) (length payload)"
    and "new_size_of_headers l \<le> first_raw l"
    and "fits p l (length data)"
  shows "\<exists>out. add_bun_section data payload = Inr out
           \<and> read_u16 out (coff_offset p + 2) = Inr (num_sections p + 1)
           \<and> read_section out (section_headers_offset p + 40 * num_sections p)
               = Inr \<lparr>name = bun_name, virtual_size = length payload + 8,
                      virtual_addr = new_va l, raw_size = raw_size_new l,
                      raw_ptr = new_raw l, chars = 0x40000040,
                      off = section_headers_offset p + 40 * num_sections p\<rparr>
           \<and> slice out (new_raw l) (new_raw l + 8 + length payload)
               = le_encode 8 (length payload) @ payload"
proof -
  let ?out = "mutated p l data payload"
  have run: "add_bun_section data payload = Inr ?out"
    using assms by (rule add_bun_section_succeeds)
  note rm = run_mutated [OF assms(1,2) run assms(4)]
  note mw = mutated_written [OF rm(1), of data]
  have pos: "new_sh_off l = section_headers_offset p + 40 * num_sections p"
    by (simp add: assms(4) layout_planner_fields)
  have pl: "payload_len l = length payload + 8"
    using rm(1) by (simp add: geom_def)
  have "new_sh_off l + 40 \<le> length ?out"
    using rm(1) by (simp add: mw(1) geom_def le_max_iff_disj)
  from read_new_section [OF mw(2) this rm(2)]
  have "read_section ?out (section_headers_offset p + 40 * num_sections p)
               = Inr \<lparr>name = bun_name, virtual_size = length payload + 8,
                      virtual_addr = new_va l, raw_size = raw_size_new l,
                      raw_ptr = new_raw l, chars = 0x40000040,
                      off = section_headers_offset p + 40 * num_sections p\<rparr>"
    by (simp add: pos pl)
  then show ?thesis
    using run run_fields(6) [OF assms(1) run assms(4)] mw(3) by blast
qed

theorem round_trip_witness:
  "parse_image signed_image = Inr signed_view \<and> well_formed signed_view
   \<and> num_sections signed_view < 96
   \<and> new_size_of_headers (layout_planner signed_view 1040 2)
        \<le> first_raw (layout_planner signed_view 1040 2)
   \<and> fits signed_view (layout_planner signed_view 1040 2) 1040
   \<and> (\<exists>out. add_bun_section signed_image [1, 2] = Inr out
         \<and> read_u16 out 70 = Inr 2
         \<and> read_section out 368
             = Inr \<lparr>name = bun_name, virtual_size = 10, virtual_addr = 8192, raw_size = 512,
                    raw_ptr = 1024, chars = 0x40000040, off = 368\<rparr>
         \<and> slice out 1024 1034 = [2, 0, 0, 0, 0, 0, 0, 0, 1, 2])"
proof -
  have f: "fits signed_view (layout_planner signed_view 1040 2) (length signed_image)"
    using fits_signed by (simp add: length_signed_image)
  show ?thesis
    using round_trip [OF parse_signed_image well_formed_signed_view signed_view_wf_facts(1)
        layout_signed_lengths signed_view_wf_facts(2) f]
      parse_signed_image well_formed_signed_view signed_view_wf_facts fits_signed
    by (simp add: signed_view_fields signed_view_table layout_signed le_encode_8
        numeral_2_eq_2 [symmetric])
qed

subsection \<open>C10: the length of the output and the padding of the new section\<close>



subsection \<open>C7: a second run is rejected\<close>

text \<open>
  Claim C7. For every well-formed 64-bit input image and payload on which
  \<open>add_bun_section\<close> succeeds, a second run on the output, with any payload, fails with
  \<open>DuplicateSection\<close>: the parser reaches the header of the section \<^verbatim>\<open>.bun\<close> that the first
  run wrote.
\<close>

theorem second_run_rejected:
  assumes "parse_image data = Inr p" and "well_formed p"
    and "add_bun_section data payload = Inr out"
  shows "add_bun_section out payload' = Inl DuplicateSection"
  using parse_output_duplicate [OF assms] by (simp add: add_bun_section_def)

theorem second_run_rejected_witness:
  "parse_image signed_image = Inr signed_view \<and> well_formed signed_view
   \<and> (\<exists>out. add_bun_section signed_image [1, 2] = Inr out
         \<and> add_bun_section out [1, 2] = Inl DuplicateSection)"
  using second_run_rejected [OF parse_signed_image well_formed_signed_view signed_run]
    parse_signed_image well_formed_signed_view signed_run
  by simp

subsection \<open>C8: the header capacity check\<close>



subsection \<open>C5: the boundary at the section ceiling\<close>

text \<open>
  Claim C5. For every input that parses: if its section count is 95 and it is otherwise
  well formed (the notion \<open>well_formed\<close>, room in the headers for one more section header,
  and a new image within the 32-bit fields), \<open>add_bun_section\<close> succeeds and the section
  count of the output is 96; if its section count is 96 or more, \<open>add_bun_section\<close> fails
  with \<open>SectionLimitExceeded\<close>, so that there is no output.
\<close>

theorem section_limit_boundary:
  assumes "parse_image data = Inr p"
    and "l = layout_planner p (length data) (length payload)"
  shows "(num_sections p = 95 \<and> well_formed p \<and> new_size_of_headers l \<le> first_raw l
            \<and> fits p l (length data)
          \<longrightarrow> (\<exists>out. add_bun_section data payload = Inr out
                   \<and> read_u16 out (coff_offset p + 2) = Inr 96))
       \<and> (96 \<le> num_sections p
          \<longrightarrow> add_bun_section data payload = Inl SectionLimitExceeded)"
proof (intro conjI impI)
  assume h: "num_sections p = 95 \<and> well_formed p \<and> new_size_of_headers l \<le> first_raw l
            \<and> fits p l (length data)"
  then have limit: "num_sections p < 96" by simp
  have run: "add_bun_section data payload = Inr (mutated p l data payload)"
    using assms(1) _ limit assms(2) by (rule add_bun_section_succeeds) (simp_all add: h)
  have "read_u16 (mutated p l data payload) (coff_offset p + 2) = Inr (num_sections p + 1)"
    using assms(1) run assms(2) by (rule run_fields(6))
  then have "read_u16 (mutated p l data payload) (coff_offset p + 2) = Inr 96"
    using h by simp
  with run show "\<exists>out. add_bun_section data payload = Inr out
                   \<and> read_u16 out (coff_offset p + 2) = Inr 96"
    by simp
next
  assume "96 \<le> num_sections p"
  then show "add_bun_section data payload = Inl SectionLimitExceeded"
    using assms(1) by (simp add: add_bun_section_def and_then_def)
qed

theorem section_limit_boundary_witness:
  "parse_image (many_sections_image 95) = Inr (many_sections_view 95)
   \<and> num_sections (many_sections_view 95) = 95 \<and> well_formed (many_sections_view 95)
   \<and> new_size_of_headers (layout_planner (many_sections_view 95) 53248 0)
      \<le> first_raw (layout_planner (many_sections_view 95) 53248 0)
   \<and> fits (many_sections_view 95) (layout_planner (many_sections_view 95) 53248 0) 53248
   \<and> (\<exists>out. add_bun_section (many_sections_image 95) [] = Inr out
          \<and> read_u16 out 70 = Inr 96)
   \<and> parse_image (many_sections_image 96) = Inr (many_sections_view 96)
   \<and> num_sections (many_sections_view 96) = 96
   \<and> add_bun_section (many_sections_image 96) [] = Inl SectionLimitExceeded"
proof -
  have p95: "parse_image (many_sections_image 95) = Inr (many_sections_view 95)"
    by (rule parse_many_sections_image) simp
  have p96: "parse_image (many_sections_image 96) = Inr (many_sections_view 96)"
    by (rule parse_many_sections_image) simp
  have len: "length (many_sections_image 95) = 53248"
    using length_many_sections_image [of 95] by simp
  have l95: "layout_planner (many_sections_view 95) 53248 0
             = layout_planner (many_sections_view 95) (length (many_sections_image 95))
                 (length ([] :: bytes))"
    by (simp add: len)
  have wf: "well_formed (many_sections_view 95)"
    by (rule well_formed_many_sections) simp
  have cap: "new_size_of_headers (layout_planner (many_sections_view 95) 53248 0)
      \<le> first_raw (layout_planner (many_sections_view 95) 53248 0)"
    by (rule many_sections_capacity) simp_all
  have fit: "fits (many_sections_view 95) (layout_planner (many_sections_view 95) 53248 0) 53248"
    using many_sections_fits [of 95] by simp
  have n: "num_sections (many_sections_view 95) = 95" "num_sections (many_sections_view 96) = 96"
    by (simp_all add: many_sections_view_fields)
  have a: "\<exists>out. add_bun_section (many_sections_image 95) [] = Inr out
          \<and> read_u16 out 70 = Inr 96"
    using section_limit_boundary [OF p95 l95] wf cap fit
    by (simp add: len many_sections_view_fields)
  have b: "add_bun_section (many_sections_image 96) [] = Inl SectionLimitExceeded"
    using section_limit_boundary [OF p96 refl, of "[]"] by (simp add: n)
  show ?thesis
    using p95 p96 wf cap fit a b by (simp add: n)
qed

end
